theory Spec2Isabelle
  imports Complex_Main "HOL-Library.AList"
begin

section \<open>Data model (src/types/mixed.ts)\<close>

text \<open>
  \<^verbatim>\<open>TAddress\<close> is a string type. \<^verbatim>\<open>TNormalizedBN = {raw: bigint; normalized: number;
  display: string}\<close>. \<^verbatim>\<open>TToken\<close> carries the fields of the type of mixed.ts plus the
  \<^verbatim>\<open>price\<close> field that WithTokenList.tsx writes. The optional \<^verbatim>\<open>logoURI\<close> is an option;
  \<^verbatim>\<open>chainID\<close> is an option as well, \<open>None\<close> standing for the run-time value
  \<^verbatim>\<open>undefined\<close> that the token-list ingestion can store there.
\<close>

type_synonym TAddress = string

record TNormalizedBN =
  raw :: int
  normalized :: real
  display :: string

record TToken =
  address :: TAddress
  name :: string
  symbol :: string
  decimals :: int
  chainID :: "int option"
  logoURI :: "string option"
  tvalue :: real
  price :: TNormalizedBN
  balance :: TNormalizedBN

text \<open>\<^verbatim>\<open>TDict<T>\<close> and \<^verbatim>\<open>TChainTokens = TNDict<TDict<TToken>>\<close> as read by the controller.\<close>

type_synonym TChainTokens = "int \<rightharpoonup> (TAddress \<rightharpoonup> TToken)"

section \<open>Wallet balance controller: safe lookups (src/contexts/useWallet.tsx)\<close>

text \<open>
  Modelled from the spec: \<^verbatim>\<open>zeroNormalizedBN\<close> (exported by utils, which is not among the
  sources): the documented zero-value balance entry, raw = 0 and normalized = 0; its display
  string is taken to be "0".
\<close>

definition zeroNormalizedBN :: TNormalizedBN where
  "zeroNormalizedBN = \<lparr>raw = 0, normalized = 0, display = ''0''\<rparr>"

text \<open>\<^verbatim>\<open>type TTokenAndChain = {address: TAddress; chainID: number}\<close>\<close>

record TTokenAndChain =
  tc_address :: TAddress
  tc_chainID :: int

text \<open>\<^verbatim>\<open>chainID || 1\<close>: among the integers only 0 is falsy.\<close>

definition chainID_or_1 :: "int \<Rightarrow> int" where
  "chainID_or_1 c = (if c = 0 then 1 else c)"

text \<open>
  \<^verbatim>\<open>balances?.[chainID || 1]?.[address] || DEFAULT_ERC20\<close>. The constant
  \<^verbatim>\<open>DEFAULT_ERC20\<close> lives in utils, outside the sources, and is a parameter here.
  A stored token is an object, hence truthy.
\<close>

definition getToken :: "TToken \<Rightarrow> TChainTokens \<Rightarrow> TTokenAndChain \<Rightarrow> TToken" where
  "getToken DEFAULT_ERC20 balances p =
     (case balances (chainID_or_1 (tc_chainID p)) of
        None \<Rightarrow> DEFAULT_ERC20
      | Some perChain \<Rightarrow>
          (case perChain (tc_address p) of
             None \<Rightarrow> DEFAULT_ERC20
           | Some token \<Rightarrow> token))"

text \<open>\<^verbatim>\<open>balances?.[chainID || 1]?.[address]?.balance || zeroNormalizedBN\<close>\<close>

definition getBalance :: "TChainTokens \<Rightarrow> TTokenAndChain \<Rightarrow> TNormalizedBN" where
  "getBalance balances p =
     (case balances (chainID_or_1 (tc_chainID p)) of
        None \<Rightarrow> zeroNormalizedBN
      | Some perChain \<Rightarrow>
          (case perChain (tc_address p) of
             None \<Rightarrow> zeroNormalizedBN
           | Some token \<Rightarrow> balance token))"

section \<open>Balance hook (src/hooks/useBalances.monochain.ts)\<close>

text \<open>
  \<^verbatim>\<open>toAddress\<close> (utils/tools.address) is not among the sources: every definition below takes
  it as the parameter \<open>toAddress :: string option \<Rightarrow> TAddress\<close>, \<open>None\<close> being a missing
  argument, so that \<^verbatim>\<open>toAddress()\<close> is \<open>toAddress None\<close>.
\<close>

text \<open>
  Modelled from the spec: \<^verbatim>\<open>isZeroAddress\<close> (utils/tools.is, not among the sources): the
  address normalises to the reserved zero-address sentinel, the value that missing input
  normalises to.
\<close>

definition isZeroAddress :: "(string option \<Rightarrow> TAddress) \<Rightarrow> TAddress \<Rightarrow> bool" where
  "isZeroAddress toAddress a = (toAddress (Some a) = toAddress None)"

text \<open>\<^verbatim>\<open>TUseBalancesTokens\<close>; \<open>None\<close> in \<open>tk_chainID\<close> is a run-time \<^verbatim>\<open>undefined\<close>.\<close>

record TUseBalancesTokens =
  tk_address :: TAddress
  tk_chainID :: "int option"
  tk_decimals :: "int option"
  tk_name :: "string option"
  tk_symbol :: "string option"

text \<open>\<^verbatim>\<open>type TDataRef = {nonce: number; address: TAddress; balances: TChainTokens}\<close>\<close>

record TDataRef =
  d_nonce :: int
  d_address :: TAddress
  d_balances :: TChainTokens

type_synonym Error = string

text \<open>
  What the hook does with the balance service, in the order in which it happens: a call of
  \<^verbatim>\<open>getBalances\<close> is issued (chain, owner, batch), and later its promise is settled and the
  code that waited for it has run (for that batch).
\<close>

datatype event =
  Issued int "string option" "TUseBalancesTokens list"
| Settled "TUseBalancesTokens list"

text \<open>
  The hook's mutable state: the ref \<^verbatim>\<open>data.current\<close>, the React state \<^verbatim>\<open>balances\<close> that the
  hook exposes as \<^verbatim>\<open>data\<close>, the \<^verbatim>\<open>error\<close> state, and the log of the events so far, oldest
  first. The status flags are left out: no control flow reads them.
\<close>

record hook_state =
  h_data :: TDataRef
  h_balances :: TChainTokens
  h_error :: "Error option"
  h_events :: "event list"

text \<open>\<^verbatim>\<open>useRef<TDataRef>({nonce: 0, address: toAddress(), balances: {}})\<close>, \<^verbatim>\<open>useState({})\<close>\<close>

definition initial_state :: "(string option \<Rightarrow> TAddress) \<Rightarrow> hook_state" where
  "initial_state toAddress =
     \<lparr>h_data = \<lparr>d_nonce = 0, d_address = toAddress None, d_balances = Map.empty\<rparr>,
      h_balances = Map.empty, h_error = None, h_events = []\<rparr>"

text \<open>
  \<^verbatim>\<open>{...old, ...element}\<close> on tokens: every required field comes from \<open>element\<close>; the optional
  \<^verbatim>\<open>logoURI\<close> survives from \<open>old\<close> when \<open>element\<close> has none. \<^verbatim>\<open>{...undefined}\<close> is empty.
\<close>

definition spread_token :: "TToken option \<Rightarrow> TToken \<Rightarrow> TToken" where
  "spread_token old element =
     (case old of
        None \<Rightarrow> element
      | Some previous \<Rightarrow>
          element\<lparr>logoURI := (case logoURI element of
                                 None \<Rightarrow> logoURI previous
                               | Some u \<Rightarrow> Some u)\<rparr>)"

text \<open>\<^verbatim>\<open>x || {}\<close> on an optional per-chain dictionary.\<close>

definition or_empty :: "(TAddress \<rightharpoonup> TToken) option \<Rightarrow> (TAddress \<rightharpoonup> TToken)" where
  "or_empty m = (case m of None \<Rightarrow> Map.empty | Some d \<Rightarrow> d)"

text \<open>
  The guard repeated at the head of every merge:
  \<^verbatim>\<open>if (toAddress(user) !== data.current.address) data.current = {address: toAddress(user),
  balances: {}, nonce: 0}; data.current.address = toAddress(user);\<close>
\<close>

definition owner_guard :: "(string option \<Rightarrow> TAddress) \<Rightarrow> string option \<Rightarrow> TDataRef \<Rightarrow> TDataRef" where
  "owner_guard toAddress user d =
     (let d1 = (if toAddress user \<noteq> d_address d
                then \<lparr>d_nonce = 0, d_address = toAddress user, d_balances = Map.empty\<rparr>
                else d)
      in d1\<lparr>d_address := toAddress user\<rparr>)"

text \<open>
  The loop \<^verbatim>\<open>for (const [address, element] of Object.entries(newRawData))\<close> of
  \<^verbatim>\<open>updateBalancesCall\<close>, on \<^verbatim>\<open>data.current.balances\<close>.
\<close>

fun mergeEntries :: "int \<Rightarrow> (TAddress \<times> TToken) list \<Rightarrow> TChainTokens \<Rightarrow> TChainTokens" where
  "mergeEntries chain [] b = b"
| "mergeEntries chain ((a, element) # rest) b =
     (let b1 = (if b chain = None then b(chain \<mapsto> Map.empty) else b);
          perChain = or_empty (b1 chain)
      in mergeEntries chain rest
           (b1(chain \<mapsto> perChain(a \<mapsto> spread_token (perChain a) element))))"

text \<open>
  \<^verbatim>\<open>set_balances(b => ({...b, [chainID]: {...(b[chainID] || {}),
  ...data.current.balances[chainID]}}))\<close>
\<close>

definition set_balances_chain :: "int \<Rightarrow> TChainTokens \<Rightarrow> TChainTokens \<Rightarrow> TChainTokens" where
  "set_balances_chain chain dataBalances b =
     b(chain \<mapsto> or_empty (b chain) ++ or_empty (dataBalances chain))"

text \<open>
  \<^verbatim>\<open>updateBalancesCall(currentUserAddress, chainID, newRawData)\<close>; its return value is
  \<open>d_balances (h_data _)\<close> of the state returned here.
\<close>

definition updateBalancesCall ::
  "(string option \<Rightarrow> TAddress) \<Rightarrow> string option \<Rightarrow> int \<Rightarrow> (TAddress \<times> TToken) list
     \<Rightarrow> hook_state \<Rightarrow> hook_state" where
  "updateBalancesCall toAddress currentUserAddress chain newRawData st =
     (let d = owner_guard toAddress currentUserAddress (h_data st);
          merged = mergeEntries chain newRawData (d_balances d);
          d2 = d\<lparr>d_balances := merged, d_nonce := d_nonce d + 1\<rparr>
      in st\<lparr>h_data := d2, h_balances := set_balances_chain chain merged (h_balances st)\<rparr>)"

text \<open>A sequence of merges, each given as (owner, chain, partial).\<close>

fun merges ::
  "(string option \<Rightarrow> TAddress) \<Rightarrow> (string option \<times> int \<times> (TAddress \<times> TToken) list) list
     \<Rightarrow> hook_state \<Rightarrow> hook_state" where
  "merges toAddress [] st = st"
| "merges toAddress ((user, chain, partial) # rest) st =
     merges toAddress rest (updateBalancesCall toAddress user chain partial st)"

text \<open>
  The grouping loop shared by \<^verbatim>\<open>onUpdate\<close>, \<^verbatim>\<open>onUpdateSome\<close> and the refresh trigger. Only the
  key \<^verbatim>\<open>chainID\<close> of \<^verbatim>\<open>tokensPerChainID\<close> and \<^verbatim>\<open>alreadyAdded\<close> is ever touched: the first is an
  optional list (\<open>None\<close>: key absent), the second the set of addresses mapped to \<^verbatim>\<open>true\<close>.
\<close>

fun groupTokens ::
  "(string option \<Rightarrow> TAddress) \<Rightarrow> int \<Rightarrow> TUseBalancesTokens list
     \<Rightarrow> TUseBalancesTokens list option \<times> TAddress set
     \<Rightarrow> TUseBalancesTokens list option \<times> TAddress set" where
  "groupTokens toAddress chain [] acc = acc"
| "groupTokens toAddress chain (token # rest) (tokensPerChainID, alreadyAdded) =
     (if tk_chainID token \<noteq> Some chain
      then groupTokens toAddress chain rest (tokensPerChainID, alreadyAdded)
      else
        let perChain = (case tokensPerChainID of None \<Rightarrow> [] | Some l \<Rightarrow> l)
        in if toAddress (Some (tk_address token)) \<in> alreadyAdded
           then groupTokens toAddress chain rest (Some perChain, alreadyAdded)
           else groupTokens toAddress chain rest
                  (Some (perChain @ [token]),
                   insert (toAddress (Some (tk_address token))) alreadyAdded))"

text \<open>
  \<^verbatim>\<open>for (let i = 0; i < tokens.length; i += 500) chunks.push(tokens.slice(i, i + 500))\<close>
\<close>

function chunksFrom :: "nat \<Rightarrow> 'a list \<Rightarrow> 'a list list" where
  "chunksFrom i tokens =
     (if i < length tokens
      then take 500 (drop i tokens) # chunksFrom (i + 500) tokens
      else [])"
  by pat_completeness auto
termination
  by (relation "measure (\<lambda>(i, tokens). length tokens - i)") auto

declare chunksFrom.simps [simp del]

text \<open>
  The entry loop of \<^verbatim>\<open>onUpdate\<close> and \<^verbatim>\<open>onUpdateSome\<close>: it writes \<^verbatim>\<open>updated[chainID][address]\<close>
  and \<^verbatim>\<open>data.current.balances[chainID][address]\<close>.
\<close>

fun batchEntries ::
  "int \<Rightarrow> (TAddress \<times> TToken) list \<Rightarrow> TChainTokens \<times> TChainTokens
     \<Rightarrow> TChainTokens \<times> TChainTokens" where
  "batchEntries chain [] acc = acc"
| "batchEntries chain ((a, element) # rest) (updated, b) =
     (let updated1 = (if updated chain = None then updated(chain \<mapsto> Map.empty) else updated);
          updated2 = updated1(chain \<mapsto> (or_empty (updated1 chain))(a \<mapsto> element));
          b1 = (if b chain = None then b(chain \<mapsto> Map.empty) else b);
          perChain = or_empty (b1 chain)
      in batchEntries chain rest
           (updated2, b1(chain \<mapsto> perChain(a \<mapsto> spread_token (perChain a) element))))"

text \<open>
  \<^verbatim>\<open>getBalances\<close> (useBalances.multichains, not among the sources) is the parameter
  \<open>getBalances chain owner batch\<close>, returning the pair \<^verbatim>\<open>[newRawData, err]\<close>.
\<close>

type_synonym getBalances_fn =
  "int \<Rightarrow> string option \<Rightarrow> TUseBalancesTokens list \<Rightarrow> (TAddress \<times> TToken) list \<times> Error option"

text \<open>
  One iteration of \<^verbatim>\<open>for (const chunkTokens of chunks)\<close>: the call, awaited on the spot,
  then \<^verbatim>\<open>set_error\<close> on an error, the owner guard, the entry loop, the nonce. \<open>asOwner\<close> is
  what the call receives as owner: \<^verbatim>\<open>userAddress\<close> in \<^verbatim>\<open>onUpdate\<close>,
  \<^verbatim>\<open>toAddress(userAddress)\<close> in \<^verbatim>\<open>onUpdateSome\<close>.
\<close>

definition batchStep ::
  "(string option \<Rightarrow> TAddress) \<Rightarrow> getBalances_fn \<Rightarrow> string option \<Rightarrow> string option \<Rightarrow> int
     \<Rightarrow> TUseBalancesTokens list \<Rightarrow> TChainTokens \<times> hook_state \<Rightarrow> TChainTokens \<times> hook_state" where
  "batchStep toAddress getBalances asOwner userAddress chain chunkTokens acc =
     (case acc of (updated, st) \<Rightarrow>
       (case getBalances (chainID_or_1 chain) asOwner chunkTokens of (newRawData, err) \<Rightarrow>
         (let st1 = st\<lparr>h_events := h_events st @ [Issued (chainID_or_1 chain) asOwner chunkTokens,
                                                  Settled chunkTokens],
                       h_error := (case err of None \<Rightarrow> h_error st | Some e \<Rightarrow> Some e)\<rparr>;
              d = owner_guard toAddress userAddress (h_data st1);
              r = batchEntries chain newRawData (updated, d_balances d)
          in (fst r, st1\<lparr>h_data := d\<lparr>d_balances := snd r, d_nonce := d_nonce d + 1\<rparr>\<rparr>))))"

text \<open>
  \<^verbatim>\<open>onUpdate()\<close>: the full refresh. \<open>tokenList\<close> is the deserialised \<^verbatim>\<open>props.tokens\<close>;
  \<^verbatim>\<open>isZero(tokens.length)\<close> (utils/tools.is) is the test for an empty list. Result: the
  returned \<^verbatim>\<open>updated\<close> mapping and the state after the call.
\<close>

definition onUpdate ::
  "(string option \<Rightarrow> TAddress) \<Rightarrow> getBalances_fn \<Rightarrow> string option \<Rightarrow> int
     \<Rightarrow> TUseBalancesTokens list \<Rightarrow> hook_state \<Rightarrow> TChainTokens \<times> hook_state" where
  "onUpdate toAddress getBalances userAddress chain tokenList st =
     (let tokens = filter (\<lambda>t. \<not> isZeroAddress toAddress (tk_address t)) tokenList
      in if length tokens = 0 then (Map.empty, st)
         else
           (case fst (groupTokens toAddress chain tokens (None, {})) of
              None \<Rightarrow> (Map.empty, st)
            | Some perChain \<Rightarrow>
                (let r = fold (batchStep toAddress getBalances userAddress userAddress chain)
                           (chunksFrom 0 perChain) (Map.empty, st)
                 in (fst r,
                     (snd r)\<lparr>h_balances :=
                        set_balances_chain chain (d_balances (h_data (snd r)))
                          (h_balances (snd r))\<rparr>))))"

text \<open>
  The closing \<^verbatim>\<open>set_balances\<close> of \<^verbatim>\<open>onUpdateSome\<close>: every chain of \<^verbatim>\<open>data.current.balances\<close> is
  spread over the previous state.
\<close>

definition set_balances_all :: "TChainTokens \<Rightarrow> TChainTokens \<Rightarrow> TChainTokens" where
  "set_balances_all dataBalances previous =
     (\<lambda>c. case dataBalances c of
             None \<Rightarrow> previous c
           | Some chainData \<Rightarrow> Some (or_empty (previous c) ++ chainData))"

text \<open>\<^verbatim>\<open>onUpdateSome(tokenList)\<close>\<close>

definition onUpdateSome ::
  "(string option \<Rightarrow> TAddress) \<Rightarrow> getBalances_fn \<Rightarrow> string option \<Rightarrow> int
     \<Rightarrow> TUseBalancesTokens list \<Rightarrow> hook_state \<Rightarrow> TChainTokens \<times> hook_state" where
  "onUpdateSome toAddress getBalances userAddress chain tokenList st =
     (let tokens = filter (\<lambda>t. \<not> isZeroAddress toAddress (tk_address t)) tokenList;
          r = (case fst (groupTokens toAddress chain tokens (None, {})) of
                 None \<Rightarrow> (Map.empty, st)
               | Some perChain \<Rightarrow>
                   fold (batchStep toAddress getBalances (Some (toAddress userAddress))
                           userAddress chain)
                     (chunksFrom 0 perChain) (Map.empty, st))
      in (fst r,
          (snd r)\<lparr>h_balances :=
             set_balances_all (d_balances (h_data (snd r))) (h_balances (snd r))\<rparr>))"

text \<open>
  The refresh trigger (\<^verbatim>\<open>useAsyncTrigger\<close>, run whenever the tokens, the owner or the chain
  change): it groups \<^verbatim>\<open>JSON.parse(stringifiedTokens)\<close> as it is and issues
  \<^verbatim>\<open>getBalances(chainID, userAddress, chunkTokens)\<close> for every batch, all of them before
  \<^verbatim>\<open>Promise.all\<close> is awaited. \<open>triggerStep\<close> is the \<^verbatim>\<open>then\<close> callback of one call:
  \<^verbatim>\<open>updateBalancesCall(toAddress(userAddress), chainID, newRawData); set_error(err)\<close>. The
  callbacks run here in batch order, one of the orders in which the promises may settle.
\<close>

definition triggerStep ::
  "(string option \<Rightarrow> TAddress) \<Rightarrow> getBalances_fn \<Rightarrow> string option \<Rightarrow> int
     \<Rightarrow> TUseBalancesTokens list \<Rightarrow> hook_state \<Rightarrow> hook_state" where
  "triggerStep toAddress getBalances userAddress chain chunkTokens st =
     (case getBalances chain userAddress chunkTokens of (newRawData, err) \<Rightarrow>
        (updateBalancesCall toAddress (Some (toAddress userAddress)) chain newRawData st)
          \<lparr>h_error := err, h_events := h_events st @ [Settled chunkTokens]\<rparr>)"

definition refreshTrigger ::
  "(string option \<Rightarrow> TAddress) \<Rightarrow> getBalances_fn \<Rightarrow> string option \<Rightarrow> int
     \<Rightarrow> TUseBalancesTokens list \<Rightarrow> hook_state \<Rightarrow> hook_state" where
  "refreshTrigger toAddress getBalances userAddress chain tokens st =
     (case fst (groupTokens toAddress chain tokens (None, {})) of
        None \<Rightarrow> st
      | Some perChain \<Rightarrow>
          fold (triggerStep toAddress getBalances userAddress chain) (chunksFrom 0 perChain)
            (st\<lparr>h_events := h_events st
                   @ map (Issued chain userAddress) (chunksFrom 0 perChain)\<rparr>))"

section \<open>Token registry (src/contexts/WithTokenList.tsx)\<close>

text \<open>
  An entry of the \<^verbatim>\<open>tokens\<close> array of a fetched document, as parsed JSON: the chain
  identifier may sit under \<^verbatim>\<open>chainId\<close>, under \<^verbatim>\<open>chainID\<close>, under both or under neither.
\<close>

record TokenListEntry =
  e_address :: TAddress
  e_name :: string
  e_symbol :: string
  e_decimals :: int
  e_chainId :: "int option"
  e_chainID :: "int option"
  e_logoURI :: "string option"

text \<open>
  One settled promise of \<^verbatim>\<open>Promise.allSettled\<close>: rejected, or fulfilled with a body whose
  \<^verbatim>\<open>tokens\<close> property is an array (\<open>Some\<close>) or is missing (\<open>None\<close>: the body is not a
  token-list document). The code casts the body (\<^verbatim>\<open>data as TTokenList\<close>), it does not check it.
\<close>

datatype response = Rejected | Fulfilled "TokenListEntry list option"

datatype js_error = TypeError

text \<open>
  \<^verbatim>\<open>TNDict<TDict<TToken>>\<close> as an object of objects, properties in insertion order. The outer
  key is the chain identifier used as property name; \<open>None\<close> is the property \<^verbatim>\<open>"undefined"\<close>.
  Property assignment is \<open>AList.update\<close>, property read is \<open>map_of\<close>.
\<close>

type_synonym registry = "(int option \<times> (TAddress \<times> TToken) list) list"

definition registry_lookup :: "registry \<Rightarrow> int option \<Rightarrow> TAddress \<Rightarrow> TToken option" where
  "registry_lookup r c a = (case map_of r c of None \<Rightarrow> None | Some d \<Rightarrow> map_of d a)"

text \<open>\<^verbatim>\<open>a ?? b\<close>\<close>

definition nullish :: "'a option \<Rightarrow> 'a option \<Rightarrow> 'a option" where
  "nullish a b = (case a of None \<Rightarrow> b | Some x \<Rightarrow> Some x)"

text \<open>
  The object literal stored for an entry; \<open>c\<close> is the expression written to \<^verbatim>\<open>chainID\<close>, \<open>z\<close>
  the value of \<^verbatim>\<open>toNormalizedBN(0)\<close> (utils/format, not among the sources).
\<close>

definition toToken :: "TNormalizedBN \<Rightarrow> int option \<Rightarrow> TokenListEntry \<Rightarrow> TToken" where
  "toToken z c e =
     \<lparr>address = e_address e, name = e_name e, symbol = e_symbol e, decimals = e_decimals e,
      chainID = c, logoURI = e_logoURI e, tvalue = 0, price = z, balance = z\<rparr>"

text \<open>
  The body shared by the three ingestion loops, for an entry stored under key \<open>k\<close> with
  \<^verbatim>\<open>chainID\<close> \<open>c\<close>:
  \<^verbatim>\<open>if (!tokenListTokens[k]) tokenListTokens[k] = {};
  if (!tokenListTokens[k][toAddress(eachToken.address)]) tokenListTokens[k][...] = {...}\<close>
\<close>

definition storeEntry ::
  "(string option \<Rightarrow> TAddress) \<Rightarrow> TNormalizedBN \<Rightarrow> int option \<Rightarrow> int option \<Rightarrow> TokenListEntry
     \<Rightarrow> registry \<Rightarrow> registry" where
  "storeEntry toAddress z k c e tokenListTokens =
     (let t1 = (if map_of tokenListTokens k = None
                then AList.update k [] tokenListTokens else tokenListTokens);
          perChain = (case map_of t1 k of None \<Rightarrow> [] | Some d \<Rightarrow> d)
      in if map_of perChain (toAddress (Some (e_address e))) = None
         then AList.update k
                (AList.update (toAddress (Some (e_address e))) (toToken z c e) perChain) t1
         else t1)"

text \<open>Base lists: key \<^verbatim>\<open>eachToken.chainId\<close>, field \<^verbatim>\<open>chainID: eachToken.chainId\<close>.\<close>

definition baseStep ::
  "(string option \<Rightarrow> TAddress) \<Rightarrow> TNormalizedBN \<Rightarrow> TokenListEntry \<Rightarrow> registry \<Rightarrow> registry" where
  "baseStep toAddress z e = storeEntry toAddress z (e_chainId e) (e_chainId e) e"

text \<open>
  \<^verbatim>\<open>for (const [index, response] of responses.entries()) if (response.status === 'fulfilled')
  tokens.push(...response.value.data.tokens)\<close>: spreading a missing \<^verbatim>\<open>tokens\<close> throws.
\<close>

fun collectTokens :: "response list \<Rightarrow> TokenListEntry list \<Rightarrow> js_error + TokenListEntry list" where
  "collectTokens [] tokens = Inr tokens"
| "collectTokens (Rejected # rest) tokens = collectTokens rest tokens"
| "collectTokens (Fulfilled None # rest) tokens = Inl TypeError"
| "collectTokens (Fulfilled (Some ts) # rest) tokens = collectTokens rest (tokens @ ts)"

text \<open>
  The base-list trigger. \<open>Inr r\<close>: \<^verbatim>\<open>set_tokenList(r)\<close> was reached; \<open>Inl\<close>: the callback threw
  before it and the state keeps its previous value.
\<close>

definition ingestBaseLists ::
  "(string option \<Rightarrow> TAddress) \<Rightarrow> TNormalizedBN \<Rightarrow> response list \<Rightarrow> js_error + registry" where
  "ingestBaseLists toAddress z responses =
     (case collectTokens responses [] of
        Inl err \<Rightarrow> Inl err
      | Inr tokens \<Rightarrow> Inr (fold (baseStep toAddress z) tokens []))"

text \<open>
  Extra lists: key \<^verbatim>\<open>eachToken.chainId ?? eachToken.chainID\<close>, field
  \<^verbatim>\<open>chainID: eachToken.chainID ?? eachToken.chainId\<close>.
\<close>

definition extraStep ::
  "(string option \<Rightarrow> TAddress) \<Rightarrow> TNormalizedBN \<Rightarrow> TokenListEntry \<Rightarrow> registry \<Rightarrow> registry" where
  "extraStep toAddress z e =
     storeEntry toAddress z (nullish (e_chainId e) (e_chainID e))
       (nullish (e_chainID e) (e_chainId e)) e"

text \<open>
  The extra-list trigger: one awaited fetch per URI; \<^verbatim>\<open>for (const eachToken of tokens)\<close> on a
  missing \<^verbatim>\<open>tokens\<close> throws.
\<close>

fun ingestExtraLists ::
  "(string option \<Rightarrow> TAddress) \<Rightarrow> TNormalizedBN \<Rightarrow> response list \<Rightarrow> registry
     \<Rightarrow> js_error + registry" where
  "ingestExtraLists toAddress z [] tokenListTokens = Inr tokenListTokens"
| "ingestExtraLists toAddress z (Rejected # rest) tokenListTokens =
     ingestExtraLists toAddress z rest tokenListTokens"
| "ingestExtraLists toAddress z (Fulfilled None # rest) tokenListTokens = Inl TypeError"
| "ingestExtraLists toAddress z (Fulfilled (Some ts) # rest) tokenListTokens =
     ingestExtraLists toAddress z rest (fold (extraStep toAddress z) ts tokenListTokens)"

text \<open>
  Individually added tokens: key and field \<^verbatim>\<open>eachToken.chainID ?? eachToken.chainId\<close>. The
  state is written only for a non-empty stored array; \<open>None\<close> is \<^verbatim>\<open>extraTokens === undefined\<close>.
\<close>

definition customStep ::
  "(string option \<Rightarrow> TAddress) \<Rightarrow> TNormalizedBN \<Rightarrow> TokenListEntry \<Rightarrow> registry \<Rightarrow> registry" where
  "customStep toAddress z e =
     storeEntry toAddress z (nullish (e_chainID e) (e_chainId e))
       (nullish (e_chainID e) (e_chainId e)) e"

definition ingestExtraTokens ::
  "(string option \<Rightarrow> TAddress) \<Rightarrow> TNormalizedBN \<Rightarrow> TokenListEntry list option \<Rightarrow> registry
     \<Rightarrow> registry" where
  "ingestExtraTokens toAddress z extraTokens tokenListCustom =
     (case extraTokens of
        None \<Rightarrow> tokenListCustom
      | Some ts \<Rightarrow>
          if length ts > 0 then fold (customStep toAddress z) ts [] else tokenListCustom)"

text \<open>
  \<^verbatim>\<open>for (const eachToken of Object.values(tier[Number(eachChainID)]))
  aggregatedTokenList[Number(eachChainID)][toAddress(eachToken.address)] = eachToken\<close>
\<close>

definition aggregateValues ::
  "(string option \<Rightarrow> TAddress) \<Rightarrow> int option \<Rightarrow> TToken list \<Rightarrow> registry \<Rightarrow> registry" where
  "aggregateValues toAddress k tokens aggregated =
     fold (\<lambda>eachToken agg.
             AList.update k
               (AList.update (toAddress (Some (address eachToken))) eachToken
                  (case map_of agg k of None \<Rightarrow> [] | Some d \<Rightarrow> d))
               agg)
       tokens aggregated"

text \<open>
  One of the three loops \<^verbatim>\<open>for (const eachChainID of Object.keys(tier))\<close>. For the property
  \<^verbatim>\<open>"undefined"\<close>, \<^verbatim>\<open>Number(eachChainID)\<close> is \<^verbatim>\<open>NaN\<close>, \<^verbatim>\<open>tier[NaN]\<close> is \<^verbatim>\<open>undefined\<close> and
  \<^verbatim>\<open>Object.values(undefined)\<close> throws.
\<close>

fun aggregateKeys ::
  "(string option \<Rightarrow> TAddress) \<Rightarrow> registry \<Rightarrow> int option list \<Rightarrow> registry \<Rightarrow> js_error + registry" where
  "aggregateKeys toAddress tier [] aggregated = Inr aggregated"
| "aggregateKeys toAddress tier (None # keys) aggregated = Inl TypeError"
| "aggregateKeys toAddress tier (Some n # keys) aggregated =
     (let agg1 = (if map_of aggregated (Some n) = None
                  then AList.update (Some n) [] aggregated else aggregated)
      in case map_of tier (Some n) of
           None \<Rightarrow> Inl TypeError
         | Some perChain \<Rightarrow>
             aggregateKeys toAddress tier keys
               (aggregateValues toAddress (Some n) (map snd perChain) agg1))"

definition aggregateTier ::
  "(string option \<Rightarrow> TAddress) \<Rightarrow> registry \<Rightarrow> registry \<Rightarrow> js_error + registry" where
  "aggregateTier toAddress tier aggregated =
     aggregateKeys toAddress tier (map fst tier) aggregated"

text \<open>\<^verbatim>\<open>aggregatedTokenList\<close>: the base tier, then the extra lists, then the custom tokens.\<close>

definition aggregatedTokenList ::
  "(string option \<Rightarrow> TAddress) \<Rightarrow> registry \<Rightarrow> registry \<Rightarrow> registry \<Rightarrow> js_error + registry" where
  "aggregatedTokenList toAddress tokenList tokenListExtra tokenListCustom =
     (case aggregateTier toAddress tokenList [] of
        Inl err \<Rightarrow> Inl err
      | Inr a1 \<Rightarrow>
          (case aggregateTier toAddress tokenListExtra a1 of
             Inl err \<Rightarrow> Inl err
           | Inr a2 \<Rightarrow> aggregateTier toAddress tokenListCustom a2))"

text \<open>
  A tier state after its trigger has run on the initial state \<^verbatim>\<open>{}\<close>: the value passed to
  the setter when the setter was reached, the initial value when the callback threw.
\<close>

definition stateAfter :: "js_error + registry \<Rightarrow> registry" where
  "stateAfter outcome = (case outcome of Inl err \<Rightarrow> [] | Inr r \<Rightarrow> r)"

text \<open>
  The registry exposed after the three triggers have run once: from the settled base
  fetches, the settled extra-list fetches and the stored individual tokens.
\<close>

definition buildRegistry ::
  "(string option \<Rightarrow> TAddress) \<Rightarrow> TNormalizedBN \<Rightarrow> response list \<Rightarrow> response list
     \<Rightarrow> TokenListEntry list option \<Rightarrow> js_error + registry" where
  "buildRegistry toAddress z baseResponses extraResponses extraTokens =
     aggregatedTokenList toAddress
       (stateAfter (ingestBaseLists toAddress z baseResponses))
       (stateAfter (ingestExtraLists toAddress z extraResponses []))
       (ingestExtraTokens toAddress z extraTokens [])"





section \<open>Wallet balance controller: refresh (src/contexts/useWallet.tsx)\<close>

text \<open>The object pushed for each token of a list in \<^verbatim>\<open>availableTokens\<close> and \<^verbatim>\<open>onRefreshWithList\<close>.\<close>

definition toBalancesToken :: "(string option \<Rightarrow> TAddress) \<Rightarrow> TToken \<Rightarrow> TUseBalancesTokens" where
  "toBalancesToken toAddress token =
     \<lparr>tk_address = toAddress (Some (address token)), tk_chainID = chainID token,
      tk_decimals = Some (decimals token), tk_name = Some (name token),
      tk_symbol = Some (symbol token)\<rparr>"

text \<open>
  \<^verbatim>\<open>tokens.filter(token => !availableTokens.find(availableToken =>
  availableToken.address === token.address))\<close> over the values of \<^verbatim>\<open>newTokenList\<close>.
\<close>

definition tokensToFetch ::
  "(string option \<Rightarrow> TAddress) \<Rightarrow> TUseBalancesTokens list \<Rightarrow> (TAddress \<times> TToken) list
     \<Rightarrow> TUseBalancesTokens list" where
  "tokensToFetch toAddress availableTokens newTokenList =
     filter (\<lambda>token. find (\<lambda>availableToken. tk_address availableToken = tk_address token)
                       availableTokens = None)
       (map (toBalancesToken toAddress) (map snd newTokenList))"

text \<open>
  \<^verbatim>\<open>onRefresh(tokenToUpdate?, shouldSaveInStorage?)\<close>. The two refresh operations of the
  balance hook and \<^verbatim>\<open>toTokenListToken\<close> are parameters; the second component of the result is
  the stored \<^verbatim>\<open>extraTokens\<close> after the call.
\<close>

definition onRefresh ::
  "'r \<Rightarrow> (TUseBalancesTokens list \<Rightarrow> 'r) \<Rightarrow> (TUseBalancesTokens \<Rightarrow> TokenListEntry)
     \<Rightarrow> TokenListEntry list option \<Rightarrow> TUseBalancesTokens list option \<Rightarrow> bool
     \<Rightarrow> 'r \<times> TokenListEntry list option" where
  "onRefresh onUpdate_op onUpdateSome_op toTokenListToken extraTokens tokenToUpdate
       shouldSaveInStorage =
     (case tokenToUpdate of
        None \<Rightarrow> (onUpdate_op, extraTokens)
      | Some ts \<Rightarrow>
          if length ts > 0
          then (onUpdateSome_op ts,
                if shouldSaveInStorage
                then Some ((case extraTokens of None \<Rightarrow> [] | Some old \<Rightarrow> old)
                           @ map toTokenListToken ts)
                else extraTokens)
          else (onUpdate_op, extraTokens))"

text \<open>\<^verbatim>\<open>onRefreshWithList(newTokenList)\<close>; \<open>balances\<close> is the current balances state.\<close>

definition onRefreshWithList ::
  "(string option \<Rightarrow> TAddress) \<Rightarrow> 'r \<Rightarrow> (TUseBalancesTokens list \<Rightarrow> 'r)
     \<Rightarrow> (TUseBalancesTokens \<Rightarrow> TokenListEntry) \<Rightarrow> TokenListEntry list option
     \<Rightarrow> TUseBalancesTokens list \<Rightarrow> 'r \<Rightarrow> (TAddress \<times> TToken) list \<Rightarrow> 'r" where
  "onRefreshWithList toAddress onUpdate_op onUpdateSome_op toTokenListToken extraTokens
       availableTokens balances newTokenList =
     (let toFetch = tokensToFetch toAddress availableTokens newTokenList
      in if length toFetch > 0
         then fst (onRefresh onUpdate_op onUpdateSome_op toTokenListToken extraTokens
                     (Some toFetch) False)
         else balances)"

section \<open>Auxiliary notions for the registry\<close>

text \<open>
  The entries that the ingestion loops iterate over, in iteration order: the \<^verbatim>\<open>tokens\<close> arrays
  of the fulfilled responses one after the other, and the stored array of individual tokens.
\<close>

fun fulfilledEntries :: "response list \<Rightarrow> TokenListEntry list" where
  "fulfilledEntries [] = []"
| "fulfilledEntries (Rejected # rest) = fulfilledEntries rest"
| "fulfilledEntries (Fulfilled None # rest) = fulfilledEntries rest"
| "fulfilledEntries (Fulfilled (Some ts) # rest) = ts @ fulfilledEntries rest"

definition storedTokens :: "TokenListEntry list option \<Rightarrow> TokenListEntry list" where
  "storedTokens extraTokens = (case extraTokens of None \<Rightarrow> [] | Some ts \<Rightarrow> ts)"





text \<open>
  A registry tier as the ingestion loops build it: an object of objects (no property twice),
  each token stored under the normalised form of its own address.
\<close>

definition wellKeyed :: "(string option \<Rightarrow> TAddress) \<Rightarrow> registry \<Rightarrow> bool" where
  "wellKeyed toAddress r =
     (distinct (map fst r) \<and>
      (\<forall>k d. map_of r k = Some d \<longrightarrow>
         distinct (map fst d) \<and>
         (\<forall>a t. map_of d a = Some t \<longrightarrow> a = toAddress (Some (address t)))))"


section \<open>Auxiliary notions for the balance hook\<close>

text \<open>
  The first token for each normalised address, in list order: what the \<^verbatim>\<open>alreadyAdded\<close>
  guard of the grouping loops lets through.
\<close>

fun firstPerAddress ::
  "(string option \<Rightarrow> TAddress) \<Rightarrow> TUseBalancesTokens list \<Rightarrow> TUseBalancesTokens list" where
  "firstPerAddress toAddress [] = []"
| "firstPerAddress toAddress (t # ts) =
     t # filter (\<lambda>t'. toAddress (Some (tk_address t')) \<noteq> toAddress (Some (tk_address t)))
           (firstPerAddress toAddress ts)"

text \<open>
  The tokens that \<^verbatim>\<open>onUpdate\<close> fetches on active chain \<open>c\<close>: those of chain \<open>c\<close> with a
  non-zero address, the first one for each normalised address. The refresh trigger has no
  zero-address filter.
\<close>

definition keptTokens ::
  "(string option \<Rightarrow> TAddress) \<Rightarrow> int \<Rightarrow> TUseBalancesTokens list \<Rightarrow> TUseBalancesTokens list" where
  "keptTokens toAddress c ts =
     firstPerAddress toAddress
       (filter (\<lambda>t. \<not> isZeroAddress toAddress (tk_address t) \<and> tk_chainID t = Some c) ts)"

definition triggerTokens ::
  "(string option \<Rightarrow> TAddress) \<Rightarrow> int \<Rightarrow> TUseBalancesTokens list \<Rightarrow> TUseBalancesTokens list" where
  "triggerTokens toAddress c ts =
     firstPerAddress toAddress (filter (\<lambda>t. tk_chainID t = Some c) ts)"

text \<open>A list of tokens of chain \<open>c\<close> with pairwise different normalised addresses.\<close>

definition sameChainDistinct ::
  "(string option \<Rightarrow> TAddress) \<Rightarrow> int \<Rightarrow> TUseBalancesTokens list \<Rightarrow> bool" where
  "sameChainDistinct toAddress c ts =
     ((\<forall>t\<in>set ts. tk_chainID t = Some c)
      \<and> distinct (map (\<lambda>t. toAddress (Some (tk_address t))) ts))"


section \<open>Concrete inputs\<close>

text \<open>A normaliser for the examples: missing or empty input goes to the sentinel \<open>''0x0''\<close>.\<close>

fun ex_toAddress :: "string option \<Rightarrow> TAddress" where
  "ex_toAddress None = ''0x0''"
| "ex_toAddress (Some a) = (if a = [] then ''0x0'' else a)"

definition ex_token :: "TAddress \<Rightarrow> int \<Rightarrow> TToken" where
  "ex_token a n =
     \<lparr>address = a, name = ''Token'', symbol = ''TKN'', decimals = 18, chainID = Some 1,
      logoURI = None, tvalue = 0, price = zeroNormalizedBN,
      balance = \<lparr>raw = n, normalized = 0, display = ''0''\<rparr>\<rparr>"

text \<open>A balances state with one entry, for \<open>''0xA''\<close> on chain 1, of raw balance 5.\<close>

definition ex_balances :: TChainTokens where
  "ex_balances = Map.empty(1 \<mapsto> Map.empty(''0xA'' \<mapsto> ex_token ''0xA'' 5))"

text \<open>A token reference on chain 1, and a token-list entry with both chain fields given.\<close>

definition ex_ref :: "TAddress \<Rightarrow> TUseBalancesTokens" where
  "ex_ref a = \<lparr>tk_address = a, tk_chainID = Some 1, tk_decimals = Some 18,
               tk_name = Some ''Token'', tk_symbol = Some ''TKN''\<rparr>"

definition ex_entry :: "TAddress \<Rightarrow> string \<Rightarrow> int option \<Rightarrow> int option \<Rightarrow> TokenListEntry" where
  "ex_entry a s c1 c2 =
     \<lparr>e_address = a, e_name = ''Token'', e_symbol = s, e_decimals = 18, e_chainId = c1,
      e_chainID = c2, e_logoURI = None\<rparr>"

definition ex_toTokenListToken :: "TUseBalancesTokens \<Rightarrow> TokenListEntry" where
  "ex_toTokenListToken t = ex_entry (tk_address t) ''TKN'' (tk_chainID t) None"

text \<open>A balance service that answers every batch in full, each token with raw balance 5.\<close>

definition ex_getBalances :: getBalances_fn where
  "ex_getBalances chain owner batch =
     (map (\<lambda>t. (tk_address t, ex_token (tk_address t) 5)) batch, None)"

text \<open>
  Owner \<open>''0xA''\<close> receives a balance for \<open>''0xX''\<close>, then the owner is \<open>''0xB''\<close> and receives one
  for \<open>''0xY''\<close>: as two calls of \<^verbatim>\<open>updateBalancesCall\<close>, and as two calls of \<^verbatim>\<open>onUpdateSome\<close>.
\<close>

definition ex_merges :: "(string option \<times> int \<times> (TAddress \<times> TToken) list) list" where
  "ex_merges = [(Some ''0xA'', 1, [(''0xX'', ex_token ''0xX'' 5)]),
                (Some ''0xB'', 1, [(''0xY'', ex_token ''0xY'' 7)])]"

definition ex_after_A :: hook_state where
  "ex_after_A = snd (onUpdateSome ex_toAddress ex_getBalances (Some ''0xA'') 1 [ex_ref ''0xX'']
                       (initial_state ex_toAddress))"

definition ex_after_B :: hook_state where
  "ex_after_B =
     snd (onUpdateSome ex_toAddress ex_getBalances (Some ''0xB'') 1 [ex_ref ''0xY''] ex_after_A)"

text \<open>
  1200 tokens of chain 1 with pairwise different addresses (\<open>ex_range 1 1201\<close>), a balance
  service that fails on the batch holding the 501st of them and answers the others in full
  with raw balance 5, a hook state of owner \<open>''0xA''\<close> that holds raw balance 3 for the first of
  the tokens, and the full refresh of the 1200 tokens from that state.
\<close>

definition ex_address :: "nat \<Rightarrow> TAddress" where
  "ex_address n = replicate n (CHR ''a'')"

definition ex_range :: "nat \<Rightarrow> nat \<Rightarrow> TUseBalancesTokens list" where
  "ex_range i j = map (\<lambda>n. ex_ref (ex_address n)) [i..<j]"

definition ex_getBalances_second_fails :: getBalances_fn where
  "ex_getBalances_second_fails chain owner batch =
     (if ex_ref (ex_address 501) \<in> set batch then ([], Some ''batch failed'')
      else (map (\<lambda>t. (tk_address t, ex_token (tk_address t) 5)) batch, None))"

definition ex_stale :: hook_state where
  "ex_stale =
     \<lparr>h_data = \<lparr>d_nonce = 1, d_address = ''0xA'',
                d_balances = Map.empty(1 \<mapsto> Map.empty(ex_address 1 \<mapsto> ex_token (ex_address 1) 3))\<rparr>,
      h_balances = Map.empty(1 \<mapsto> Map.empty(ex_address 1 \<mapsto> ex_token (ex_address 1) 3)),
      h_error = None, h_events = []\<rparr>"

definition ex_refresh :: "TChainTokens \<times> hook_state" where
  "ex_refresh = onUpdate ex_toAddress ex_getBalances_second_fails (Some ''0xA'') 1
                  (ex_range 1 1201) ex_stale"

text \<open>501 tokens of chain 1 with pairwise different addresses, the first the zero address.\<close>

definition ex_with_zero :: "TUseBalancesTokens list" where
  "ex_with_zero = ex_ref ''0x0'' # ex_range 1 501"


text \<open>The refresh trigger on a single token whose address is the zero-address sentinel.\<close>

definition ex_zero_refresh :: hook_state where
  "ex_zero_refresh = refreshTrigger ex_toAddress ex_getBalances (Some ''0xA'') 1
                       [ex_ref ''0x0''] (initial_state ex_toAddress)"







section \<open>Safe lookups of the controller\<close>

text \<open>
  C9. For every address and every balances state, \<^verbatim>\<open>getBalance\<close> and \<^verbatim>\<open>getToken\<close> called with
  chain 0 answer as with chain 1: the lookup is made under chain 1, and what comes back is
  the entry stored there for the address, or the default when there is none.
\<close>

theorem getBalance_getToken_falsy_chain:
  "getBalance balances \<lparr>tc_address = a, tc_chainID = 0\<rparr>
     = getBalance balances \<lparr>tc_address = a, tc_chainID = 1\<rparr>
   \<and> getToken dflt balances \<lparr>tc_address = a, tc_chainID = 0\<rparr>
     = getToken dflt balances \<lparr>tc_address = a, tc_chainID = 1\<rparr>
   \<and> getToken dflt balances \<lparr>tc_address = a, tc_chainID = 0\<rparr>
     = (case or_empty (balances 1) a of None \<Rightarrow> dflt | Some token \<Rightarrow> token)
   \<and> getBalance balances \<lparr>tc_address = a, tc_chainID = 0\<rparr>
     = (case or_empty (balances 1) a of
          None \<Rightarrow> zeroNormalizedBN
        | Some token \<Rightarrow> balance token)"
  by (simp add: getBalance_def getToken_def chainID_or_1_def or_empty_def split: option.splits)

text \<open>
  C8, as stated, fails at chain 0: the state holds nothing for the pair (\<open>''0xA''\<close>, 0), yet
  \<^verbatim>\<open>getBalance\<close> answers with the balance stored under chain 1.
\<close>

theorem getBalance_chain0_counterexample:
  "ex_balances 0 = None
   \<and> getBalance ex_balances \<lparr>tc_address = ''0xA'', tc_chainID = 0\<rparr> \<noteq> zeroNormalizedBN"
  by (simp add: getBalance_def chainID_or_1_def ex_token_def zeroNormalizedBN_def
      ex_balances_def)

text \<open>
  C8, amended. For every (address, chainID) pair, \<^verbatim>\<open>getBalance\<close> returns the zero-value entry
  (raw = 0, normalized = 0) when the balances state holds no entry for the address under the
  chain \<^verbatim>\<open>chainID || 1\<close>, that is under \<open>chainID\<close> itself unless it is 0, which is read as
  chain 1. The result is always a balance entry.
\<close>

theorem getBalance_absent_zero:
  assumes "or_empty (balances (chainID_or_1 c)) a = None"
  shows "getBalance balances \<lparr>tc_address = a, tc_chainID = c\<rparr> = zeroNormalizedBN
         \<and> raw (getBalance balances \<lparr>tc_address = a, tc_chainID = c\<rparr>) = 0
         \<and> normalized (getBalance balances \<lparr>tc_address = a, tc_chainID = c\<rparr>) = 0"
  using assms
  by (simp add: getBalance_def or_empty_def zeroNormalizedBN_def split: option.splits)

theorem getBalance_absent_zero_witness:
  "or_empty (ex_balances (chainID_or_1 10)) ''0xA'' = None
   \<and> getBalance ex_balances \<lparr>tc_address = ''0xA'', tc_chainID = 10\<rparr> = zeroNormalizedBN
   \<and> or_empty (ex_balances (chainID_or_1 0)) ''0xB'' = None
   \<and> raw (getBalance ex_balances \<lparr>tc_address = ''0xB'', tc_chainID = 0\<rparr>) = 0"
proof -
  have h: "or_empty (ex_balances (chainID_or_1 10)) ''0xA'' = None"
    by (simp add: or_empty_def chainID_or_1_def ex_balances_def)
  have k: "or_empty (ex_balances (chainID_or_1 0)) ''0xB'' = None"
    by (simp add: or_empty_def chainID_or_1_def ex_balances_def)
  show ?thesis
    using h k getBalance_absent_zero [of ex_balances 10 "''0xA''"]
      getBalance_absent_zero [of ex_balances 0 "''0xB''"]
    by blast
qed

section \<open>The owner guard and the nonce\<close>

lemma owner_guard_nonce:
  "d_nonce (owner_guard toAddress u d) = (if toAddress u = d_address d then d_nonce d else 0)"
  by (simp add: owner_guard_def Let_def)

lemma owner_guard_address: "d_address (owner_guard toAddress u d) = toAddress u"
  by (simp add: owner_guard_def Let_def)

lemma owner_guard_balances:
  "d_balances (owner_guard toAddress u d)
     = (if toAddress u = d_address d then d_balances d else Map.empty)"
  by (simp add: owner_guard_def Let_def)

lemma updateBalancesCall_nonce:
  "d_nonce (h_data (updateBalancesCall toAddress u c new st))
     = (if toAddress u = d_address (h_data st) then d_nonce (h_data st) + 1 else 1)"
  by (simp add: updateBalancesCall_def Let_def owner_guard_nonce)

lemma updateBalancesCall_address:
  "d_address (h_data (updateBalancesCall toAddress u c new st)) = toAddress u"
  by (simp add: updateBalancesCall_def Let_def owner_guard_address)

lemma batchStep_nonce:
  "d_nonce (h_data (snd (batchStep toAddress gb asOwner u c chunk (updated, st))))
     = (if toAddress u = d_address (h_data st) then d_nonce (h_data st) + 1 else 1)"
  by (simp add: batchStep_def Let_def owner_guard_nonce split: prod.splits)

lemma merges_same_owner_nonce:
  "\<forall>m\<in>set ms. toAddress (fst m) = d_address (h_data st) \<Longrightarrow>
   d_nonce (h_data (merges toAddress ms st)) = d_nonce (h_data st) + int (length ms)
   \<and> d_address (h_data (merges toAddress ms st)) = d_address (h_data st)"
proof (induction ms arbitrary: st)
  case Nil
  then show ?case by simp
next
  case (Cons m ms)
  obtain u c new where m: "m = (u, c, new)" by (cases m) auto
  from Cons.prems m have own: "toAddress u = d_address (h_data st)" by simp
  let ?st = "updateBalancesCall toAddress u c new st"
  have addr: "d_address (h_data ?st) = d_address (h_data st)"
    using own by (simp add: updateBalancesCall_address)
  have "\<forall>m\<in>set ms. toAddress (fst m) = d_address (h_data ?st)"
    using Cons.prems addr by simp
  from Cons.IH [OF this] show ?case
    using own addr by (simp add: m updateBalancesCall_nonce)
qed

text \<open>
  C3, as stated, fails when the owner changes: two merges for \<open>''0xA''\<close> bring the nonce to 2,
  a third merge, for \<open>''0xB''\<close>, leaves it at 1.
\<close>

theorem nonce_counterexample:
  "d_nonce (h_data (merges ex_toAddress
      [(Some ''0xA'', 1, []), (Some ''0xA'', 1, [])] (initial_state ex_toAddress))) = 2
   \<and> d_nonce (h_data (merges ex_toAddress
      [(Some ''0xA'', 1, []), (Some ''0xA'', 1, []), (Some ''0xB'', 1, [])]
      (initial_state ex_toAddress))) = 1"
  by (simp add: updateBalancesCall_def owner_guard_def initial_state_def Let_def)

text \<open>
  C3, amended. Every merge batch, in \<^verbatim>\<open>updateBalancesCall\<close> as in the batch loop of \<^verbatim>\<open>onUpdate\<close>
  and \<^verbatim>\<open>onUpdateSome\<close>, increments the nonce by exactly one when it is made for the tracked
  owner, and sets it to 1 when it is made for another owner (the guard resets it to 0
  first). Across any sequence of merges for the tracked owner the nonce grows by the number
  of merges, so it never decreases there.
\<close>

theorem nonce_increment_or_restart:
  "d_nonce (h_data (updateBalancesCall toAddress u c new st))
     = (if toAddress u = d_address (h_data st) then d_nonce (h_data st) + 1 else 1)
   \<and> d_nonce (h_data (snd (batchStep toAddress gb asOwner u c chunk (updated, st))))
     = (if toAddress u = d_address (h_data st) then d_nonce (h_data st) + 1 else 1)
   \<and> ((\<forall>m\<in>set ms. toAddress (fst m) = d_address (h_data st)) \<longrightarrow>
        d_nonce (h_data (merges toAddress ms st)) = d_nonce (h_data st) + int (length ms))"
  using merges_same_owner_nonce [of ms toAddress st]
  by (simp add: updateBalancesCall_nonce batchStep_nonce)

theorem nonce_increment_or_restart_witness:
  "ex_toAddress (Some ''0x0'') = d_address (h_data (initial_state ex_toAddress))
   \<and> ex_toAddress None = d_address (h_data (initial_state ex_toAddress))
   \<and> d_nonce (h_data (merges ex_toAddress
        [(Some ''0x0'', 1, []), (None, 5, [(''0xA'', ex_token ''0xA'' 5)])]
        (initial_state ex_toAddress)))
      = d_nonce (h_data (initial_state ex_toAddress)) + 2"
proof -
  have h: "\<forall>m\<in>set [(Some ''0x0'', 1, []), (None, 5, [(''0xA'', ex_token ''0xA'' 5)])].
      ex_toAddress (fst m) = d_address (h_data (initial_state ex_toAddress))"
    by (simp add: initial_state_def)
  have "d_nonce (h_data (merges ex_toAddress
        [(Some ''0x0'', 1, []), (None, 5, [(''0xA'', ex_token ''0xA'' 5)])]
        (initial_state ex_toAddress)))
      = d_nonce (h_data (initial_state ex_toAddress)) + 2"
    using h nonce_increment_or_restart [of ex_toAddress _ _ _ "initial_state ex_toAddress" _ _ _ _
        "[(Some ''0x0'', 1, []), (None, 5, [(''0xA'', ex_token ''0xA'' 5)])]"]
    by simp
  then show ?thesis by (simp add: initial_state_def)
qed

section \<open>Owner change and the exposed balances\<close>

lemma chunksFrom_short: "0 < length xs \<Longrightarrow> length xs \<le> 500 \<Longrightarrow> chunksFrom 0 xs = [xs]"
  by (simp add: chunksFrom.simps [of 0 xs] chunksFrom.simps [of 500 xs])

text \<open>
  C1. After the owner has changed from \<open>''0xA''\<close> to \<open>''0xB''\<close> and a partial for \<open>''0xB''\<close> has
  been merged, the ref \<^verbatim>\<open>data.current.balances\<close> holds only the entry merged for \<open>''0xB''\<close>, but
  the \<^verbatim>\<open>balances\<close> state that the hook exposes as \<^verbatim>\<open>data\<close> still holds the entry of \<open>''0xA''\<close>:
  both setters spread the previous state. It is so through \<^verbatim>\<open>updateBalancesCall\<close> and
  through \<^verbatim>\<open>onUpdateSome\<close>.
\<close>

theorem owner_switch_residual_entry:
  "or_empty (d_balances (h_data (merges ex_toAddress ex_merges (initial_state ex_toAddress))) 1)
       ''0xX'' = None
   \<and> or_empty (d_balances (h_data (merges ex_toAddress ex_merges (initial_state ex_toAddress))) 1)
       ''0xY'' = Some (ex_token ''0xY'' 7)
   \<and> or_empty (h_balances (merges ex_toAddress ex_merges (initial_state ex_toAddress)) 1)
       ''0xX'' = Some (ex_token ''0xX'' 5)
   \<and> d_address (h_data ex_after_B) = ''0xB''
   \<and> or_empty (d_balances (h_data ex_after_B) 1) ''0xX'' = None
   \<and> or_empty (h_balances ex_after_B 1) ''0xX'' = Some (ex_token ''0xX'' 5)"
proof -
  have viaCall:
    "or_empty (d_balances (h_data (merges ex_toAddress ex_merges (initial_state ex_toAddress))) 1)
       ''0xX'' = None
     \<and> or_empty (d_balances (h_data (merges ex_toAddress ex_merges (initial_state ex_toAddress))) 1)
       ''0xY'' = Some (ex_token ''0xY'' 7)
     \<and> or_empty (h_balances (merges ex_toAddress ex_merges (initial_state ex_toAddress)) 1)
       ''0xX'' = Some (ex_token ''0xX'' 5)"
    by (simp add: ex_merges_def updateBalancesCall_def owner_guard_def initial_state_def Let_def
        set_balances_chain_def or_empty_def spread_token_def)
  have viaSome:
    "d_address (h_data ex_after_B) = ''0xB''
     \<and> or_empty (d_balances (h_data ex_after_B) 1) ''0xX'' = None
     \<and> or_empty (h_balances ex_after_B 1) ''0xX'' = Some (ex_token ''0xX'' 5)"
    by (simp add: ex_after_B_def ex_after_A_def onUpdateSome_def isZeroAddress_def ex_ref_def
        chunksFrom_short batchStep_def ex_getBalances_def owner_guard_def initial_state_def
        set_balances_all_def or_empty_def spread_token_def chainID_or_1_def Let_def)
  from viaCall viaSome show ?thesis by simp
qed

section \<open>Token-list ingestion on concrete documents\<close>

text \<open>
  C5. A base list whose only entry declares its chain under \<^verbatim>\<open>chainID\<close> (and has no
  \<^verbatim>\<open>chainId\<close>): the base tier has nothing for it under chain 1, it stores it under the
  property \<^verbatim>\<open>"undefined"\<close> with \<^verbatim>\<open>chainID\<close> undefined, and the aggregation then throws. The
  same entry coming from an extra list or from the individually added tokens is stored
  under chain 1 with \<^verbatim>\<open>chainID\<close> 1.
\<close>

theorem base_list_chainID_spelling:
  "registry_lookup (stateAfter (ingestBaseLists ex_toAddress zeroNormalizedBN
       [Fulfilled (Some [ex_entry ''0xBBB'' ''B'' None (Some 1)])])) (Some 1) ''0xBBB'' = None
   \<and> map_option chainID (registry_lookup (stateAfter (ingestBaseLists ex_toAddress zeroNormalizedBN
       [Fulfilled (Some [ex_entry ''0xBBB'' ''B'' None (Some 1)])])) None ''0xBBB'') = Some None
   \<and> buildRegistry ex_toAddress zeroNormalizedBN
       [Fulfilled (Some [ex_entry ''0xBBB'' ''B'' None (Some 1)])] [] None = Inl TypeError
   \<and> map_option chainID (registry_lookup (stateAfter (ingestExtraLists ex_toAddress
       zeroNormalizedBN [Fulfilled (Some [ex_entry ''0xBBB'' ''B'' None (Some 1)])] []))
       (Some 1) ''0xBBB'') = Some (Some 1)
   \<and> map_option chainID (registry_lookup (ingestExtraTokens ex_toAddress zeroNormalizedBN
       (Some [ex_entry ''0xBBB'' ''B'' None (Some 1)]) []) (Some 1) ''0xBBB'')
       = Some (Some 1)"
  by (simp add: registry_lookup_def stateAfter_def ingestBaseLists_def baseStep_def storeEntry_def
      ex_entry_def toToken_def buildRegistry_def aggregatedTokenList_def aggregateTier_def
      extraStep_def customStep_def nullish_def ingestExtraTokens_def Let_def)

text \<open>
  C7. Two base URIs, the first answered by a body without a \<^verbatim>\<open>tokens\<close> array, the second by a
  well-formed list: the trigger throws before \<^verbatim>\<open>set_tokenList\<close>, and the registry built from
  these fetches is empty, the well-formed list's token is not in it. When the first fetch
  is rejected instead, the token is there.
\<close>

theorem malformed_document_blocks_base_lists:
  "ingestBaseLists ex_toAddress zeroNormalizedBN
       [Fulfilled None, Fulfilled (Some [ex_entry ''0xAAA'' ''A'' (Some 1) None])]
     = Inl TypeError
   \<and> buildRegistry ex_toAddress zeroNormalizedBN
       [Fulfilled None, Fulfilled (Some [ex_entry ''0xAAA'' ''A'' (Some 1) None])] [] None
     = Inr []
   \<and> map_option symbol (registry_lookup (stateAfter (buildRegistry ex_toAddress zeroNormalizedBN
       [Rejected, Fulfilled (Some [ex_entry ''0xAAA'' ''A'' (Some 1) None])] [] None))
         (Some 1) ''0xAAA'') = Some ''A''"
  by (simp add: registry_lookup_def stateAfter_def ingestBaseLists_def baseStep_def storeEntry_def
      ex_entry_def toToken_def buildRegistry_def aggregatedTokenList_def aggregateTier_def
      aggregateValues_def ingestExtraTokens_def Let_def)

section \<open>Refresh with an imported list\<close>

lemma find_None_iff_address:
  "(find (\<lambda>av. tk_address av = a) avail = None) = (a \<notin> tk_address ` set avail)"
  by (auto simp: find_None_iff)

text \<open>
  C6, as stated, fails for a token whose address is known on another chain: the known set
  holds (chain 1, \<open>''0xA''\<close>), the supplied mapping holds (chain 10, \<open>''0xA''\<close>), an identity
  that is not known; nothing is selected for fetching and the current balances come back.
\<close>

theorem refreshWithList_other_chain_counterexample:
  "(tk_chainID (toBalancesToken ex_toAddress ((ex_token ''0xA'' 0)\<lparr>chainID := Some 10\<rparr>)),
    tk_address (toBalancesToken ex_toAddress ((ex_token ''0xA'' 0)\<lparr>chainID := Some 10\<rparr>)))
     \<noteq> (tk_chainID (ex_ref ''0xA''), tk_address (ex_ref ''0xA''))
   \<and> tokensToFetch ex_toAddress [ex_ref ''0xA'']
        [(''0xA'', (ex_token ''0xA'' 0)\<lparr>chainID := Some 10\<rparr>)] = []
   \<and> onRefreshWithList ex_toAddress (Some []) Some ex_toTokenListToken None [ex_ref ''0xA''] None
        [(''0xA'', (ex_token ''0xA'' 0)\<lparr>chainID := Some 10\<rparr>)] = None"
  by (simp add: tokensToFetch_def toBalancesToken_def ex_ref_def ex_token_def
      onRefreshWithList_def)

text \<open>
  C6, amended. For every token mapping passed to \<^verbatim>\<open>onRefreshWithList\<close>, balances are requested
  exactly for the tokens whose normalised address is not the address of any currently known
  token, whatever the chains; if there is no such token the current balances are returned
  unchanged, otherwise the selected tokens, and only they, are handed to the partial refresh.
\<close>

theorem refreshWithList_by_address:
  "tokensToFetch toAddress availableTokens newTokenList
     = filter (\<lambda>token. tk_address token \<notin> tk_address ` set availableTokens)
         (map (toBalancesToken toAddress) (map snd newTokenList))
   \<and> onRefreshWithList toAddress onUpdate_op onUpdateSome_op toTokenListToken extraTokens
        availableTokens balances newTokenList
     = (if tokensToFetch toAddress availableTokens newTokenList = [] then balances
        else onUpdateSome_op (tokensToFetch toAddress availableTokens newTokenList))"
proof -
  have sel: "tokensToFetch toAddress availableTokens newTokenList
     = filter (\<lambda>token. tk_address token \<notin> tk_address ` set availableTokens)
         (map (toBalancesToken toAddress) (map snd newTokenList))"
    by (simp add: tokensToFetch_def find_None_iff_address)
  have run: "onRefreshWithList toAddress onUpdate_op onUpdateSome_op toTokenListToken extraTokens
        availableTokens balances newTokenList
     = (if tokensToFetch toAddress availableTokens newTokenList = [] then balances
        else onUpdateSome_op (tokensToFetch toAddress availableTokens newTokenList))"
    by (cases "tokensToFetch toAddress availableTokens newTokenList")
      (simp_all add: onRefreshWithList_def onRefresh_def Let_def)
  from sel run show ?thesis by (rule conjI)
qed

section \<open>Batches of the full refresh\<close>

lemma chunksFrom_concat: "concat (chunksFrom i xs) = drop i xs"
proof (induction i xs rule: chunksFrom.induct)
  case (1 i tokens)
  show ?case
  proof (cases "i < length tokens")
    case True
    have "take 500 (drop i tokens) @ drop 500 (drop i tokens) = drop i tokens"
      by (rule append_take_drop_id)
    moreover have "drop 500 (drop i tokens) = drop (i + 500) tokens"
      by (simp add: add.commute)
    ultimately have "take 500 (drop i tokens) @ drop (i + 500) tokens = drop i tokens"
      by simp
    moreover have "concat (chunksFrom i tokens)
        = take 500 (drop i tokens) @ concat (chunksFrom (i + 500) tokens)"
      using True by (simp add: chunksFrom.simps [of i tokens])
    ultimately show ?thesis using True "1.IH" by simp
  next
    case False
    then show ?thesis by (simp add: chunksFrom.simps [of i tokens])
  qed
qed

lemma chunksFrom_length: "length (chunksFrom i xs) = (length xs - i + 499) div 500"
proof (induction i xs rule: chunksFrom.induct)
  case (1 i tokens)
  show ?case
  proof (cases "i < length tokens")
    case True
    with "1.IH" have "length (chunksFrom i tokens) = Suc ((length tokens - (i + 500) + 499) div 500)"
      by (simp add: chunksFrom.simps [of i tokens])
    also have "\<dots> = (length tokens - i + 499) div 500"
      using True by (cases "length tokens - i < 500") auto
    finally show ?thesis .
  next
    case False
    then show ?thesis by (simp add: chunksFrom.simps [of i tokens])
  qed
qed

lemma chunksFrom_sizes: "ck \<in> set (chunksFrom i xs) \<Longrightarrow> 0 < length ck \<and> length ck \<le> 500"
proof (induction i xs rule: chunksFrom.induct)
  case (1 i tokens)
  show ?case
  proof (cases "i < length tokens")
    case True
    with "1.prems" have "ck = take 500 (drop i tokens) \<or> ck \<in> set (chunksFrom (i + 500) tokens)"
      by (simp add: chunksFrom.simps [of i tokens])
    then show ?thesis
    proof
      assume "ck = take 500 (drop i tokens)"
      with True show ?thesis by simp
    next
      assume "ck \<in> set (chunksFrom (i + 500) tokens)"
      with True "1.IH" show ?thesis by simp
    qed
  next
    case False
    with "1.prems" show ?thesis by (simp add: chunksFrom.simps [of i tokens])
  qed
qed

lemma entry_step:
  "(if m c = None then m(c \<mapsto> Map.empty) else m)
     (c \<mapsto> (or_empty ((if m c = None then m(c \<mapsto> Map.empty) else m) c))(a \<mapsto> f (or_empty ((if m c = None then m(c \<mapsto> Map.empty) else m) c) a)))
   = m(c \<mapsto> (or_empty (m c))(a \<mapsto> f (or_empty (m c) a)))"
  by (auto simp: or_empty_def)

lemma mergeEntries_Cons:
  "mergeEntries c ((a, e) # es) b
     = mergeEntries c es (b(c \<mapsto> (or_empty (b c))(a \<mapsto> spread_token (or_empty (b c) a) e)))"
  using entry_step [of b c a "\<lambda>old. spread_token old e"] by (simp add: Let_def)

lemma batchEntries_Cons:
  "batchEntries c ((a, e) # es) (upd, b)
     = batchEntries c es
         (upd(c \<mapsto> (or_empty (upd c))(a \<mapsto> e)),
          b(c \<mapsto> (or_empty (b c))(a \<mapsto> spread_token (or_empty (b c) a) e)))"
  using entry_step [of b c a "\<lambda>old. spread_token old e"] entry_step [of upd c a "\<lambda>old. e"]
  by (simp add: Let_def)

lemma batchEntries_snd: "snd (batchEntries c es (upd, b)) = mergeEntries c es b"
proof (induction es arbitrary: upd b)
  case Nil
  then show ?case by simp
next
  case (Cons p es)
  obtain a e where p: "p = (a, e)" by (cases p)
  show ?case
    unfolding p batchEntries_Cons mergeEntries_Cons by (rule Cons.IH)
qed

lemma batchEntries_fst:
  "fst (batchEntries c es (upd, b))
     = (if es = [] then upd else upd(c \<mapsto> or_empty (upd c) ++ map_of (rev es)))"
proof (induction es arbitrary: upd b)
  case Nil
  then show ?case by simp
next
  case (Cons p es)
  obtain a e where p: "p = (a, e)" by (cases p)
  let ?m = "or_empty (upd c)"
  let ?upd = "upd(c \<mapsto> ?m(a \<mapsto> e))"
  have last: "?m(a \<mapsto> e) ++ map_of (rev es) = ?m ++ map_of (rev ((a, e) # es))"
    by (simp add: map_add_assoc [symmetric])
  have here: "or_empty (?upd c) = ?m(a \<mapsto> e)"
    by (simp add: or_empty_def)
  have "fst (batchEntries c (p # es) (upd, b))
      = (if es = [] then ?upd else ?upd(c \<mapsto> or_empty (?upd c) ++ map_of (rev es)))"
    unfolding p batchEntries_Cons by (rule Cons.IH)
  also have "\<dots> = upd(c \<mapsto> ?m ++ map_of (rev ((a, e) # es)))"
    unfolding here last [symmetric] by simp
  finally show ?case by (simp add: p)
qed

lemma mergeEntries_other: "c' \<noteq> c \<Longrightarrow> mergeEntries c es b c' = b c'"
proof (induction es arbitrary: b)
  case Nil
  then show ?case by simp
next
  case (Cons p es)
  obtain a e where p: "p = (a, e)" by (cases p)
  show ?case unfolding p mergeEntries_Cons using Cons by simp
qed

lemma mergeEntries_dom:
  "dom (or_empty (mergeEntries c es b c)) = dom (or_empty (b c)) \<union> fst ` set es"
proof (induction es arbitrary: b)
  case Nil
  then show ?case by simp
next
  case (Cons p es)
  obtain a e where p: "p = (a, e)" by (cases p)
  show ?case unfolding p mergeEntries_Cons Cons.IH by (auto simp: or_empty_def)
qed

lemma batchStep_fst:
  "fst (batchStep toAddress gb ao u c ck acc)
     = (if fst (gb (chainID_or_1 c) ao ck) = [] then fst acc
        else (fst acc)(c \<mapsto> or_empty (fst acc c) ++ map_of (rev (fst (gb (chainID_or_1 c) ao ck)))))"
  by (cases acc; cases "gb (chainID_or_1 c) ao ck")
    (simp add: batchStep_def Let_def batchEntries_fst)

lemma batchStep_events:
  "h_events (snd (batchStep toAddress gb ao u c ck acc))
     = h_events (snd acc) @ [Issued (chainID_or_1 c) ao ck, Settled ck]"
  by (cases acc; cases "gb (chainID_or_1 c) ao ck") (simp add: batchStep_def Let_def)

lemma batchStep_address:
  "d_address (h_data (snd (batchStep toAddress gb ao u c ck acc))) = toAddress u"
  by (cases acc; cases "gb (chainID_or_1 c) ao ck")
    (simp add: batchStep_def Let_def owner_guard_address)

lemma batchStep_data:
  "d_balances (h_data (snd (batchStep toAddress gb ao u c ck acc)))
     = mergeEntries c (fst (gb (chainID_or_1 c) ao ck))
         (d_balances (owner_guard toAddress u (h_data (snd acc))))"
  by (cases acc; cases "gb (chainID_or_1 c) ao ck")
    (simp add: batchStep_def Let_def batchEntries_snd)

lemma batchStep_error:
  "h_error (snd (batchStep toAddress gb ao u c ck acc))
     = (case snd (gb (chainID_or_1 c) ao ck) of None \<Rightarrow> h_error (snd acc) | Some e \<Rightarrow> Some e)"
  by (cases acc; cases "gb (chainID_or_1 c) ao ck")
    (simp add: batchStep_def Let_def split: option.splits)

lemma fold_batchStep_events:
  "h_events (snd (fold (batchStep toAddress gb ao u c) cks acc))
     = h_events (snd acc) @ concat (map (\<lambda>ck. [Issued (chainID_or_1 c) ao ck, Settled ck]) cks)"
  by (induction cks arbitrary: acc) (simp_all add: batchStep_events)

lemma fold_batchStep_address:
  "cks \<noteq> [] \<Longrightarrow>
   d_address (h_data (snd (fold (batchStep toAddress gb ao u c) cks acc))) = toAddress u"
proof (induction cks arbitrary: acc)
  case Nil
  then show ?case by simp
next
  case (Cons ck cks)
  show ?case
  proof (cases "cks = []")
    case True
    then show ?thesis by (simp add: batchStep_address)
  next
    case False
    with Cons.IH show ?thesis by simp
  qed
qed

lemma fold_batchStep_fst:
  "fst (fold (batchStep toAddress gb ao u c) cks acc)
     = (if concat (map (\<lambda>ck. fst (gb (chainID_or_1 c) ao ck)) cks) = [] then fst acc
        else (fst acc)(c \<mapsto> or_empty (fst acc c)
               ++ map_of (rev (concat (map (\<lambda>ck. fst (gb (chainID_or_1 c) ao ck)) cks)))))"
proof (induction cks arbitrary: acc)
  case Nil
  then show ?case by simp
next
  case (Cons ck cks)
  let ?es = "fst (gb (chainID_or_1 c) ao ck)"
  let ?rest = "concat (map (\<lambda>ck. fst (gb (chainID_or_1 c) ao ck)) cks)"
  let ?acc = "batchStep toAddress gb ao u c ck acc"
  have step: "fst ?acc = (if ?es = [] then fst acc
        else (fst acc)(c \<mapsto> or_empty (fst acc c) ++ map_of (rev ?es)))"
    by (rule batchStep_fst)
  have ih: "fst (fold (batchStep toAddress gb ao u c) cks ?acc)
      = (if ?rest = [] then fst ?acc
         else (fst ?acc)(c \<mapsto> or_empty (fst ?acc c) ++ map_of (rev ?rest)))"
    by (rule Cons.IH)
  show ?case
  proof (cases "?es = []")
    case True
    with step have same: "fst ?acc = fst acc" by simp
    have "concat (map (\<lambda>ck. fst (gb (chainID_or_1 c) ao ck)) (ck # cks)) = ?rest"
      using True by simp
    then show ?thesis using ih unfolding same by (simp del: concat_eq_Nil_conv)
  next
    case False
    with step have here: "or_empty (fst ?acc c) = or_empty (fst acc c) ++ map_of (rev ?es)"
      by (simp add: or_empty_def)
    show ?thesis
    proof (cases "?rest = []")
      case True
      have "fst (fold (batchStep toAddress gb ao u c) (ck # cks) acc) = fst ?acc"
        using ih True by (simp del: concat_eq_Nil_conv)
      moreover have "concat (map (\<lambda>ck. fst (gb (chainID_or_1 c) ao ck)) (ck # cks)) = ?es"
        using True by (simp del: concat_eq_Nil_conv)
      ultimately show ?thesis using step False by (simp del: concat_eq_Nil_conv)
    next
      case rest: False
      have "fst (fold (batchStep toAddress gb ao u c) (ck # cks) acc)
          = (fst ?acc)(c \<mapsto> or_empty (fst ?acc c) ++ map_of (rev ?rest))"
        using ih rest by (simp del: concat_eq_Nil_conv)
      also have "\<dots> = (fst acc)(c \<mapsto> (or_empty (fst acc c) ++ map_of (rev ?es)) ++ map_of (rev ?rest))"
        unfolding here using step False by simp
      also have "(or_empty (fst acc c) ++ map_of (rev ?es)) ++ map_of (rev ?rest)
          = or_empty (fst acc c) ++ map_of (rev (?es @ ?rest))"
        by simp
      finally show ?thesis using False by (simp del: concat_eq_Nil_conv)
    qed
  qed
qed

lemma fold_batchStep_error:
  assumes "ck \<in> set cks" and "snd (gb (chainID_or_1 c) ao ck) \<noteq> None"
  shows "h_error (snd (fold (batchStep toAddress gb ao u c) cks acc)) \<noteq> None"
  using assms
proof (induction cks arbitrary: acc rule: rev_induct)
  case Nil
  then show ?case by simp
next
  case (snoc k cks)
  show ?case
  proof (cases "snd (gb (chainID_or_1 c) ao k)")
    case (Some e)
    then show ?thesis by (simp add: batchStep_error)
  next
    case None
    with snoc.prems have "ck \<in> set cks" by auto
    from snoc.IH [OF this snoc.prems(2)] None show ?thesis by (simp add: batchStep_error)
  qed
qed

lemma groupTokens_subset:
  "set (case fst (groupTokens toAddress c ts (per, already)) of None \<Rightarrow> [] | Some l \<Rightarrow> l)
     \<subseteq> set (case per of None \<Rightarrow> [] | Some l \<Rightarrow> l) \<union> {t \<in> set ts. tk_chainID t = Some c}"
proof (induction ts arbitrary: per already)
  case Nil
  then show ?case by simp
next
  case (Cons t ts)
  show ?case
  proof (cases "tk_chainID t = Some c")
    case False
    with Cons.IH [of per already] show ?thesis by auto
  next
    case True
    let ?l = "case per of None \<Rightarrow> [] | Some l \<Rightarrow> l"
    show ?thesis
    proof (cases "toAddress (Some (tk_address t)) \<in> already")
      case dup: True
      with True Cons.IH [of "Some ?l" already] show ?thesis by (auto simp: Let_def)
    next
      case new: False
      with True Cons.IH [of "Some (?l @ [t])" "insert (toAddress (Some (tk_address t))) already"]
      show ?thesis by (auto simp: Let_def)
    qed
  qed
qed

text \<open>
  The tokens of the scenario of the specification, 1200 of them on one chain, and their
  three batches of 500, 500 and 200.
\<close>

lemma ex_address_inj: "(ex_address n = ex_address m) = (n = m)"
  by (metis ex_address_def length_replicate)

lemma ex_ref_address_inj: "(ex_ref (ex_address n) = ex_ref (ex_address m)) = (n = m)"
  by (simp add: ex_ref_def ex_address_inj)

lemma ex_address_empty: "(ex_address n = []) = (n = 0)"
  by (simp add: ex_address_def)

lemma ex_range_length: "length (ex_range i j) = j - i"
  by (simp add: ex_range_def)

lemma ex_address_nonzero: "ex_address n \<noteq> ''0x0''"
  by (cases n) (simp_all add: ex_address_def)

lemma ex_range_mem: "(ex_ref (ex_address n) \<in> set (ex_range i j)) = (i \<le> n \<and> n < j)"
  by (auto simp: ex_range_def ex_ref_address_inj)

lemma ex_range_nonzero:
  "0 < i \<Longrightarrow> \<forall>t\<in>set (ex_range i j). \<not> isZeroAddress ex_toAddress (tk_address t)"
  by (auto simp: ex_range_def isZeroAddress_def ex_ref_def ex_address_empty ex_address_nonzero)

lemma ex_range_chain: "\<forall>t\<in>set (ex_range i j). tk_chainID t = Some 1"
  by (auto simp: ex_range_def ex_ref_def)

lemma ex_range_distinct:
  "0 < i \<Longrightarrow> distinct (map (\<lambda>t. ex_toAddress (Some (tk_address t))) (ex_range i j))"
  by (auto simp: ex_range_def distinct_map inj_on_def comp_def ex_ref_def ex_address_empty
      ex_address_inj)

lemma ex_range_chunks:
  "chunksFrom 0 (ex_range 1 1201) = [ex_range 1 501, ex_range 501 1001, ex_range 1001 1201]"
proof -
  note len = ex_range_length
  have c3: "chunksFrom 1500 (ex_range 1 1201) = []"
    by (simp add: chunksFrom.simps [of 1500] len)
  have c2: "chunksFrom 1000 (ex_range 1 1201) = [ex_range 1001 1201]"
    using c3 by (simp add: chunksFrom.simps [of 1000] len) (simp add: ex_range_def drop_map take_map)
  have c1: "chunksFrom 500 (ex_range 1 1201) = [ex_range 501 1001, ex_range 1001 1201]"
    using c2 by (simp add: chunksFrom.simps [of 500] len) (simp add: ex_range_def drop_map take_map)
  show ?thesis
    using c1 by (simp add: chunksFrom.simps [of 0] len) (simp add: ex_range_def take_map)
qed

section \<open>The ref and the exposed state on an owner change, in general\<close>

text \<open>
  A merge for an owner other than the tracked one leaves in the ref exactly the keys of the
  incoming partial, under its chain; the exposed state never loses a key in a merge.
\<close>

lemma owner_switch_resets_ref:
  assumes "toAddress u \<noteq> d_address (h_data st)"
  shows "dom (or_empty (d_balances (h_data (updateBalancesCall toAddress u c new st)) c'))
           = (if c' = c then fst ` set new else {})"
proof (cases "c' = c")
  case True
  have "dom (or_empty (mergeEntries c new Map.empty c)) = fst ` set new"
    by (simp add: mergeEntries_dom) (simp add: or_empty_def)
  with assms True show ?thesis
    by (simp add: updateBalancesCall_def Let_def owner_guard_balances)
next
  case False
  then have "or_empty (mergeEntries c new Map.empty c') = Map.empty"
    by (simp add: mergeEntries_other or_empty_def)
  with assms False show ?thesis
    by (simp add: updateBalancesCall_def Let_def owner_guard_balances)
qed

lemma exposed_state_keeps_entries:
  "dom (or_empty (h_balances st c'))
     \<subseteq> dom (or_empty (h_balances (updateBalancesCall toAddress u c new st) c'))"
  by (auto simp: updateBalancesCall_def Let_def set_balances_chain_def or_empty_def)

section \<open>Tokens dropped before the network call\<close>

text \<open>
  \<^verbatim>\<open>onUpdate\<close> behaves on a list as on the list without its zero-address tokens, and the
  grouping loop as on the tokens of the active chain alone. In \<^verbatim>\<open>onUpdate\<close> no issued batch
  holds a token with a zero address or of another chain; in the refresh trigger, which
  issues all its calls before any of them is settled, no issued batch holds a token of
  another chain.
\<close>

lemma onUpdate_zero_addresses_dropped:
  "onUpdate toAddress gb u c ts st
     = onUpdate toAddress gb u c (filter (\<lambda>t. \<not> isZeroAddress toAddress (tk_address t)) ts) st"
  by (simp add: onUpdate_def)

lemma groupTokens_other_chains_dropped:
  "groupTokens toAddress c ts acc
     = groupTokens toAddress c (filter (\<lambda>t. tk_chainID t = Some c) ts) acc"
  by (induction toAddress c ts acc rule: groupTokens.induct) (simp_all add: Let_def)

lemma onUpdate_batches_filtered:
  assumes "Issued ch ow ck \<in> set (h_events (snd (onUpdate toAddress gb u c tokenList st)))"
    and "Issued ch ow ck \<notin> set (h_events st)"
    and "t \<in> set ck"
  shows "t \<in> set tokenList \<and> \<not> isZeroAddress toAddress (tk_address t) \<and> tk_chainID t = Some c"
proof -
  let ?tokens = "filter (\<lambda>t. \<not> isZeroAddress toAddress (tk_address t)) tokenList"
  let ?g = "fst (groupTokens toAddress c ?tokens (None, {}))"
  show ?thesis
  proof (cases ?g)
    case None
    with assms(1,2) show ?thesis by (simp add: onUpdate_def Let_def split: if_splits)
  next
    case (Some perChain)
    have sub: "set perChain \<subseteq> {t \<in> set ?tokens. tk_chainID t = Some c}"
      using groupTokens_subset [of toAddress c ?tokens None "{}"] Some by simp
    from assms(1,2) Some have "ck \<in> set (chunksFrom 0 perChain)"
      by (auto simp: onUpdate_def Let_def fold_batchStep_events split: if_splits)
    then have "set ck \<subseteq> set (concat (chunksFrom 0 perChain))" by auto
    then have "set ck \<subseteq> set perChain" by (simp add: chunksFrom_concat)
    with assms(3) sub show ?thesis by auto
  qed
qed

lemma updateBalancesCall_events:
  "h_events (updateBalancesCall toAddress u c new st) = h_events st"
  by (simp add: updateBalancesCall_def Let_def)

lemma triggerStep_events:
  "h_events (triggerStep toAddress gb u c ck st) = h_events st @ [Settled ck]"
  by (cases "gb c u ck") (simp add: triggerStep_def)

lemma fold_triggerStep_events:
  "h_events (fold (triggerStep toAddress gb u c) cks st) = h_events st @ map Settled cks"
  by (induction cks arbitrary: st) (simp_all add: triggerStep_events)

lemma refreshTrigger_events:
  "h_events (refreshTrigger toAddress gb u c tokens st)
     = (case fst (groupTokens toAddress c tokens (None, {})) of
          None \<Rightarrow> h_events st
        | Some perChain \<Rightarrow>
            h_events st @ map (Issued c u) (chunksFrom 0 perChain)
              @ map Settled (chunksFrom 0 perChain))"
  by (simp add: refreshTrigger_def fold_triggerStep_events split: option.splits)

lemma refreshTrigger_batches_filtered:
  assumes "Issued ch ow ck \<in> set (h_events (refreshTrigger toAddress gb u c tokens st))"
    and "Issued ch ow ck \<notin> set (h_events st)"
    and "t \<in> set ck"
  shows "t \<in> set tokens \<and> tk_chainID t = Some c"
proof (cases "fst (groupTokens toAddress c tokens (None, {}))")
  case None
  with assms(1,2) show ?thesis by (simp add: refreshTrigger_def)
next
  case (Some perChain)
  have sub: "set perChain \<subseteq> {t \<in> set tokens. tk_chainID t = Some c}"
    using groupTokens_subset [of toAddress c tokens None "{}"] Some by simp
  from assms(1,2) Some have "ck \<in> set (chunksFrom 0 perChain)"
    by (auto simp: refreshTrigger_def fold_triggerStep_events)
  then have "set ck \<subseteq> set (concat (chunksFrom 0 perChain))" by auto
  then have "set ck \<subseteq> set perChain" by (simp add: chunksFrom_concat)
  with assms(3) sub show ?thesis by auto
qed


text \<open>
  C10. The refresh trigger run on a token whose address normalises to the zero address:
  the token is sent to \<^verbatim>\<open>getBalances\<close> and the answer is merged into the ref and into the
  exposed state. \<^verbatim>\<open>onUpdate\<close> and \<^verbatim>\<open>onUpdateSome\<close> on the same input issue no call. A token
  of another chain is dropped by the trigger too.
\<close>

theorem trigger_fetches_zero_address:
  "isZeroAddress ex_toAddress (tk_address (ex_ref ''0x0''))
   \<and> h_events ex_zero_refresh
       = [Issued 1 (Some ''0xA'') [ex_ref ''0x0''], Settled [ex_ref ''0x0'']]
   \<and> or_empty (d_balances (h_data ex_zero_refresh) 1) ''0x0'' = Some (ex_token ''0x0'' 5)
   \<and> or_empty (h_balances ex_zero_refresh 1) ''0x0'' = Some (ex_token ''0x0'' 5)
   \<and> h_events (snd (onUpdate ex_toAddress ex_getBalances (Some ''0xA'') 1 [ex_ref ''0x0'']
        (initial_state ex_toAddress))) = []
   \<and> h_events (snd (onUpdateSome ex_toAddress ex_getBalances (Some ''0xA'') 1 [ex_ref ''0x0'']
        (initial_state ex_toAddress))) = []
   \<and> h_events (refreshTrigger ex_toAddress ex_getBalances (Some ''0xA'') 1
        [(ex_ref ''0xB'')\<lparr>tk_chainID := Some 10\<rparr>] (initial_state ex_toAddress)) = []"
  by (simp add: ex_zero_refresh_def refreshTrigger_def triggerStep_def isZeroAddress_def
      ex_ref_def chunksFrom_short ex_getBalances_def updateBalancesCall_def owner_guard_def
      initial_state_def set_balances_chain_def or_empty_def spread_token_def onUpdate_def
      onUpdateSome_def Let_def)


section \<open>The full refresh on any list\<close>

text \<open>
  The grouping loop keeps, of the tokens of the active chain, the first one for each
  normalised address; \<^verbatim>\<open>onUpdate\<close> runs it after the zero-address filter.
\<close>

lemma firstPerAddress_set: "set (firstPerAddress toAddress ts) \<subseteq> set ts"
  by (induction ts) auto

lemma firstPerAddress_addresses:
  "(\<lambda>t. toAddress (Some (tk_address t))) ` set (firstPerAddress toAddress ts)
     = (\<lambda>t. toAddress (Some (tk_address t))) ` set ts"
proof (induction ts)
  case Nil
  then show ?case by simp
next
  case (Cons t ts)
  let ?key = "\<lambda>t. toAddress (Some (tk_address t))"
  have "?key ` {x \<in> set (firstPerAddress toAddress ts). ?key x \<noteq> ?key t}
      = ?key ` set (firstPerAddress toAddress ts) - {?key t}"
    by auto
  with Cons.IH show ?case by auto
qed

lemma firstPerAddress_distinct:
  "distinct (map (\<lambda>t. toAddress (Some (tk_address t))) (firstPerAddress toAddress ts))"
proof (induction ts)
  case Nil
  then show ?case by simp
next
  case (Cons t ts)
  then show ?case by (auto simp: distinct_map_filter)
qed

lemma firstPerAddress_id:
  "distinct (map (\<lambda>t. toAddress (Some (tk_address t))) ts) \<Longrightarrow> firstPerAddress toAddress ts = ts"
proof (induction ts)
  case Nil
  then show ?case by simp
next
  case (Cons t ts)
  then have "filter (\<lambda>t'. toAddress (Some (tk_address t')) \<noteq> toAddress (Some (tk_address t))) ts = ts"
    by (auto simp: filter_id_conv image_iff)
  with Cons show ?case by simp
qed

lemma firstPerAddress_Nil: "(firstPerAddress toAddress ts = []) = (ts = [])"
  by (cases ts) simp_all

lemma groupTokens_firstPerAddress:
  "fst (groupTokens toAddress c ts (per, already))
     = (if filter (\<lambda>t. tk_chainID t = Some c) ts = [] then per
        else Some ((case per of None \<Rightarrow> [] | Some l \<Rightarrow> l)
               @ filter (\<lambda>t. toAddress (Some (tk_address t)) \<notin> already)
                   (firstPerAddress toAddress (filter (\<lambda>t. tk_chainID t = Some c) ts))))"
proof (induction ts arbitrary: per already)
  case Nil
  then show ?case by simp
next
  case (Cons t ts)
  let ?l = "case per of None \<Rightarrow> [] | Some l \<Rightarrow> l"
  let ?a = "toAddress (Some (tk_address t))"
  let ?rest = "firstPerAddress toAddress (filter (\<lambda>t. tk_chainID t = Some c) ts)"
  show ?case
  proof (cases "tk_chainID t = Some c")
    case False
    then show ?thesis by (simp add: Cons.IH)
  next
    case True
    show ?thesis
    proof (cases "?a \<in> already")
      case dup: True
      have same: "filter (\<lambda>t'. toAddress (Some (tk_address t')) \<notin> already)
            (filter (\<lambda>t'. toAddress (Some (tk_address t')) \<noteq> ?a) ?rest)
          = filter (\<lambda>t'. toAddress (Some (tk_address t')) \<notin> already) ?rest"
        using dup by (auto intro: filter_cong)
      have "fst (groupTokens toAddress c (t # ts) (per, already))
          = fst (groupTokens toAddress c ts (Some ?l, already))"
        using True dup by (simp add: Let_def)
      also have "\<dots> = Some (?l @ filter (\<lambda>t'. toAddress (Some (tk_address t')) \<notin> already) ?rest)"
        by (simp add: Cons.IH firstPerAddress_Nil)
      finally show ?thesis using True dup same by simp
    next
      case new: False
      have split: "filter (\<lambda>t'. toAddress (Some (tk_address t')) \<notin> insert ?a already) ?rest
          = filter (\<lambda>t'. toAddress (Some (tk_address t')) \<notin> already)
              (filter (\<lambda>t'. toAddress (Some (tk_address t')) \<noteq> ?a) ?rest)"
        by (auto intro: filter_cong)
      have "fst (groupTokens toAddress c (t # ts) (per, already))
          = fst (groupTokens toAddress c ts (Some (?l @ [t]), insert ?a already))"
        using True new by (simp add: Let_def)
      also have "\<dots> = Some ((?l @ [t])
            @ filter (\<lambda>t'. toAddress (Some (tk_address t')) \<notin> insert ?a already) ?rest)"
        by (simp add: Cons.IH firstPerAddress_Nil)
      finally show ?thesis using True new split by simp
    qed
  qed
qed

lemma groupTokens_top:
  "fst (groupTokens toAddress c ts (None, {}))
     = (if firstPerAddress toAddress (filter (\<lambda>t. tk_chainID t = Some c) ts) = [] then None
        else Some (firstPerAddress toAddress (filter (\<lambda>t. tk_chainID t = Some c) ts)))"
  by (simp add: groupTokens_firstPerAddress firstPerAddress_Nil)

lemma keptTokens_filter:
  "keptTokens toAddress c ts
     = firstPerAddress toAddress (filter (\<lambda>t. tk_chainID t = Some c)
         (filter (\<lambda>t. \<not> isZeroAddress toAddress (tk_address t)) ts))"
  by (simp add: keptTokens_def conj_commute)

lemma onUpdate_kept:
  "onUpdate toAddress gb u c ts st
     = (if keptTokens toAddress c ts = [] then (Map.empty, st)
        else (fst (fold (batchStep toAddress gb u u c) (chunksFrom 0 (keptTokens toAddress c ts))
                     (Map.empty, st)),
              (snd (fold (batchStep toAddress gb u u c) (chunksFrom 0 (keptTokens toAddress c ts))
                     (Map.empty, st)))
                \<lparr>h_balances := set_balances_chain c
                   (d_balances (h_data (snd (fold (batchStep toAddress gb u u c)
                      (chunksFrom 0 (keptTokens toAddress c ts)) (Map.empty, st)))))
                   (h_balances (snd (fold (batchStep toAddress gb u u c)
                      (chunksFrom 0 (keptTokens toAddress c ts)) (Map.empty, st))))\<rparr>))"
proof (cases "filter (\<lambda>t. \<not> isZeroAddress toAddress (tk_address t)) ts = []")
  case True
  then show ?thesis by (simp add: onUpdate_def keptTokens_filter)
next
  case False
  then show ?thesis
    by (simp add: onUpdate_def keptTokens_filter groupTokens_top Let_def)
qed

lemma keptTokens_id:
  assumes "sameChainDistinct toAddress c ts"
    and "\<forall>t\<in>set ts. \<not> isZeroAddress toAddress (tk_address t)"
  shows "keptTokens toAddress c ts = ts"
proof -
  have "filter (\<lambda>t. \<not> isZeroAddress toAddress (tk_address t) \<and> tk_chainID t = Some c) ts = ts"
    using assms by (auto simp: filter_id_conv sameChainDistinct_def)
  with assms(1) show ?thesis
    by (simp add: keptTokens_def firstPerAddress_id sameChainDistinct_def)
qed

text \<open>
  What a batch returns for an address replaces the balance held for it: the merged entry is
  the returned one in every field, the logo apart.
\<close>

lemma spread_token_fields: "(spread_token old e)\<lparr>logoURI := logoURI e\<rparr> = e"
  by (cases old) (simp_all add: spread_token_def)

lemma mergeEntries_untouched:
  "a \<notin> fst ` set es \<Longrightarrow> or_empty (mergeEntries c es b c) a = or_empty (b c) a"
proof (induction es arbitrary: b)
  case Nil
  then show ?case by simp
next
  case (Cons p es)
  obtain k e where p: "p = (k, e)" by (cases p)
  from Cons.prems p have k: "k \<noteq> a" and rest: "a \<notin> fst ` set es" by auto
  let ?b = "b(c \<mapsto> (or_empty (b c))(k \<mapsto> spread_token (or_empty (b c) k) e))"
  have "or_empty (mergeEntries c es ?b c) a = or_empty (?b c) a"
    using rest by (rule Cons.IH)
  also have "\<dots> = or_empty (b c) a"
    using k by (simp add: or_empty_def)
  finally show ?case unfolding p mergeEntries_Cons .
qed

lemma mergeEntries_last:
  "map_of (rev es) a = Some e \<Longrightarrow>
   \<exists>t. or_empty (mergeEntries c es b c) a = Some t \<and> t\<lparr>logoURI := logoURI e\<rparr> = e"
proof (induction es arbitrary: b)
  case Nil
  then show ?case by simp
next
  case (Cons p es)
  obtain k el where p: "p = (k, el)" by (cases p)
  let ?b = "b(c \<mapsto> (or_empty (b c))(k \<mapsto> spread_token (or_empty (b c) k) el))"
  show ?case
  proof (cases "map_of (rev es) a")
    case (Some x)
    with Cons.prems p have "map_of (rev es) a = Some e" by (simp add: map_add_def)
    from Cons.IH [OF this, of ?b] show ?thesis
      unfolding p mergeEntries_Cons .
  next
    case None
    with Cons.prems p have here: "k = a" "el = e"
      by (auto simp: map_add_def split: if_splits)
    from None have "a \<notin> fst ` set es"
      by (simp add: map_of_eq_None_iff)
    then have "or_empty (mergeEntries c es ?b c) a = or_empty (?b c) a"
      by (rule mergeEntries_untouched)
    also have "\<dots> = Some (spread_token (or_empty (b c) a) e)"
      by (simp add: or_empty_def here)
    finally show ?thesis
      unfolding p mergeEntries_Cons here by (simp add: spread_token_fields)
  qed
qed

lemma fold_batchStep_ref_value:
  assumes "map_of (rev (concat (map (\<lambda>ck. fst (gb (chainID_or_1 c) ao ck)) cks))) a = Some e"
  shows "\<exists>t. or_empty (d_balances (h_data (snd (fold (batchStep toAddress gb ao u c) cks acc))) c) a
               = Some t
           \<and> t\<lparr>logoURI := logoURI e\<rparr> = e"
  using assms
proof (induction cks rule: rev_induct)
  case Nil
  then show ?case by simp
next
  case (snoc k cks)
  let ?es = "fst (gb (chainID_or_1 c) ao k)"
  let ?prev = "concat (map (\<lambda>ck. fst (gb (chainID_or_1 c) ao ck)) cks)"
  let ?acc = "fold (batchStep toAddress gb ao u c) cks acc"
  have data: "d_balances (h_data (snd (fold (batchStep toAddress gb ao u c) (cks @ [k]) acc)))
      = mergeEntries c ?es (d_balances (owner_guard toAddress u (h_data (snd ?acc))))"
    by (simp add: batchStep_data)
  from snoc.prems have look: "(map_of (rev ?prev) ++ map_of (rev ?es)) a = Some e"
    by simp
  show ?case
  proof (cases "map_of (rev ?es) a")
    case (Some x)
    with look have "map_of (rev ?es) a = Some e" by (simp add: map_add_def)
    then show ?thesis unfolding data by (rule mergeEntries_last)
  next
    case None
    with look have before: "map_of (rev ?prev) a = Some e" by (simp add: map_add_def)
    then have "cks \<noteq> []" by auto
    then have "d_address (h_data (snd ?acc)) = toAddress u"
      by (rule fold_batchStep_address)
    then have guard: "d_balances (owner_guard toAddress u (h_data (snd ?acc)))
        = d_balances (h_data (snd ?acc))"
      by (simp add: owner_guard_balances)
    from None have "a \<notin> fst ` set ?es" by (simp add: map_of_eq_None_iff)
    then have "or_empty (mergeEntries c ?es (d_balances (h_data (snd ?acc))) c) a
        = or_empty (d_balances (h_data (snd ?acc)) c) a"
      by (rule mergeEntries_untouched)
    with snoc.IH [OF before] show ?thesis unfolding data guard by simp
  qed
qed

lemma onUpdate_events:
  "h_events (snd (onUpdate toAddress gb u c ts st))
     = h_events st
       @ concat (map (\<lambda>ck. [Issued (chainID_or_1 c) u ck, Settled ck])
           (chunksFrom 0 (keptTokens toAddress c ts)))"
  by (simp add: onUpdate_kept fold_batchStep_events chunksFrom.simps [of 0 "[]"])

lemma onUpdate_returned:
  "or_empty (fst (onUpdate toAddress gb u c ts st) c)
     = map_of (rev (concat (map (\<lambda>ck. fst (gb (chainID_or_1 c) u ck))
         (chunksFrom 0 (keptTokens toAddress c ts)))))"
  by (simp add: onUpdate_kept fold_batchStep_fst or_empty_def chunksFrom.simps [of 0 "[]"]
      del: concat_eq_Nil_conv)

lemma onUpdate_merged:
  assumes "map_of (rev (concat (map (\<lambda>ck. fst (gb (chainID_or_1 c) u ck))
         (chunksFrom 0 (keptTokens toAddress c ts))))) a = Some e"
  shows "\<exists>t. or_empty (d_balances (h_data (snd (onUpdate toAddress gb u c ts st))) c) a = Some t
           \<and> or_empty (h_balances (snd (onUpdate toAddress gb u c ts st)) c) a = Some t
           \<and> t\<lparr>logoURI := logoURI e\<rparr> = e"
proof (cases "keptTokens toAddress c ts = []")
  case True
  with assms show ?thesis by (simp add: chunksFrom.simps [of 0 "[]"])
next
  case False
  let ?r = "fold (batchStep toAddress gb u u c) (chunksFrom 0 (keptTokens toAddress c ts))
              (Map.empty, st)"
  have "\<exists>t. or_empty (d_balances (h_data (snd ?r)) c) a = Some t \<and> t\<lparr>logoURI := logoURI e\<rparr> = e"
    using assms by (rule fold_batchStep_ref_value)
  then obtain t where t: "or_empty (d_balances (h_data (snd ?r)) c) a = Some t"
      "t\<lparr>logoURI := logoURI e\<rparr> = e"
    by blast
  have "or_empty (h_balances (snd (onUpdate toAddress gb u c ts st)) c) a = Some t"
    using False t(1) by (simp add: onUpdate_kept set_balances_chain_def or_empty_def)
  moreover have "or_empty (d_balances (h_data (snd (onUpdate toAddress gb u c ts st))) c) a = Some t"
    using False t(1) by (simp add: onUpdate_kept)
  ultimately show ?thesis using t(2) by blast
qed

lemma onUpdate_error:
  assumes "ck \<in> set (chunksFrom 0 (keptTokens toAddress c ts))"
    and "snd (gb (chainID_or_1 c) u ck) \<noteq> None"
  shows "h_error (snd (onUpdate toAddress gb u c ts st)) \<noteq> None"
proof (cases "keptTokens toAddress c ts = []")
  case True
  with assms(1) show ?thesis by (simp add: chunksFrom.simps [of 0 "[]"])
next
  case False
  have "h_error (snd (fold (batchStep toAddress gb u u c)
      (chunksFrom 0 (keptTokens toAddress c ts)) (Map.empty, st))) \<noteq> None"
    using assms by (rule fold_batchStep_error)
  with False show ?thesis by (simp add: onUpdate_kept)
qed

lemma refreshTrigger_all_issued_first:
  "h_events (refreshTrigger toAddress gb u c ts st)
     = h_events st
       @ map (Issued c u) (chunksFrom 0 (triggerTokens toAddress c ts))
       @ map Settled (chunksFrom 0 (triggerTokens toAddress c ts))"
  by (simp add: refreshTrigger_events groupTokens_top triggerTokens_def
      chunksFrom.simps [of 0 "[]"])

lemma ex_with_zero_kept: "keptTokens ex_toAddress 1 ex_with_zero = ex_range 1 501"
proof -
  have pos: "0 < (1::nat)" by simp
  have "filter (\<lambda>t. \<not> isZeroAddress ex_toAddress (tk_address t) \<and> tk_chainID t = Some 1)
      (ex_range 1 501) = ex_range 1 501"
    using ex_range_nonzero [OF pos, of 501] ex_range_chain [of 1 501]
    by (auto simp: filter_id_conv)
  moreover have "isZeroAddress ex_toAddress (tk_address (ex_ref ''0x0''))"
    by (simp add: isZeroAddress_def ex_ref_def)
  ultimately show ?thesis
    using ex_range_distinct [OF pos, of 501]
    by (simp add: keptTokens_def ex_with_zero_def firstPerAddress_id)
qed

lemma map_of_determined:
  "\<forall>p\<in>set es. snd p = g (fst p) \<Longrightarrow>
   map_of es a = (if a \<in> fst ` set es then Some (g a) else None)"
  by (induction es) auto

lemma ex_answers_lookup:
  "map_of (rev (map (\<lambda>t. (tk_address t, ex_token (tk_address t) 5)) (ex_range i j)
             @ map (\<lambda>t. (tk_address t, ex_token (tk_address t) 5)) (ex_range k l))) (ex_address n)
     = (if (i \<le> n \<and> n < j) \<or> (k \<le> n \<and> n < l) then Some (ex_token (ex_address n) 5) else None)"
proof -
  let ?es = "map (\<lambda>t. (tk_address t, ex_token (tk_address t) 5)) (ex_range i j)
             @ map (\<lambda>t. (tk_address t, ex_token (tk_address t) 5)) (ex_range k l)"
  have det: "\<forall>p\<in>set (rev ?es). snd p = ex_token (fst p) 5" by auto
  have img: "fst ` set (rev ?es) = ex_address ` ({i..<j} \<union> {k..<l})"
    by (simp add: ex_range_def ex_ref_def image_Un image_image Un_commute)
  have keys: "(ex_address n \<in> fst ` set (rev ?es)) = ((i \<le> n \<and> n < j) \<or> (k \<le> n \<and> n < l))"
    unfolding img by (auto simp: ex_address_inj)
  show ?thesis
    unfolding map_of_determined [OF det] keys by simp
qed


text \<open>
  C4, as stated, fails for a list that holds a zero address or tokens of another chain than
  the active one. 501 tokens of chain 1 with pairwise different addresses, one of them the
  zero address, are fetched in one batch, not in ceil(501/500) = 2. One token of chain 10,
  refreshed while chain 1 is active, is fetched in no batch, not in ceil(1/500) = 1.
\<close>

theorem full_refresh_dropped_tokens_counterexample:
  "length ex_with_zero = 501
   \<and> sameChainDistinct ex_toAddress 1 ex_with_zero
   \<and> h_events (snd (onUpdate ex_toAddress ex_getBalances (Some ''0xA'') 1 ex_with_zero
        (initial_state ex_toAddress)))
       = [Issued 1 (Some ''0xA'') (ex_range 1 501), Settled (ex_range 1 501)]
   \<and> (501 + 499) div 500 = (2::nat)
   \<and> sameChainDistinct ex_toAddress 10 [(ex_ref ''0xB'')\<lparr>tk_chainID := Some 10\<rparr>]
   \<and> h_events (snd (onUpdate ex_toAddress ex_getBalances (Some ''0xA'') 1
        [(ex_ref ''0xB'')\<lparr>tk_chainID := Some 10\<rparr>] (initial_state ex_toAddress))) = []
   \<and> (1 + 499) div 500 = (1::nat)"
proof -
  have pos: "0 < (1::nat)" by simp
  have len: "length ex_with_zero = 501"
    by (simp add: ex_with_zero_def ex_range_length)
  have same: "sameChainDistinct ex_toAddress 1 ex_with_zero"
    using ex_range_distinct [OF pos, of 501] ex_range_chain [of 1 501]
    by (auto simp: sameChainDistinct_def ex_with_zero_def ex_ref_def ex_range_def
        ex_address_empty ex_address_nonzero ex_address_nonzero [THEN not_sym])
  have one: "chunksFrom 0 (ex_range 1 501) = [ex_range 1 501]"
    by (rule chunksFrom_short) (simp_all add: ex_range_length)
  have ev: "h_events (snd (onUpdate ex_toAddress ex_getBalances (Some ''0xA'') 1 ex_with_zero
        (initial_state ex_toAddress)))
       = [Issued 1 (Some ''0xA'') (ex_range 1 501), Settled (ex_range 1 501)]"
    unfolding onUpdate_events ex_with_zero_kept one
    by (simp add: initial_state_def chainID_or_1_def)
  have other: "sameChainDistinct ex_toAddress 10 [(ex_ref ''0xB'')\<lparr>tk_chainID := Some 10\<rparr>]"
    by (simp add: sameChainDistinct_def)
  have none: "h_events (snd (onUpdate ex_toAddress ex_getBalances (Some ''0xA'') 1
        [(ex_ref ''0xB'')\<lparr>tk_chainID := Some 10\<rparr>] (initial_state ex_toAddress))) = []"
    by (simp add: onUpdate_events keptTokens_def ex_ref_def chunksFrom.simps [of 0 "[]"]
        initial_state_def)
  from len same ev other none show ?thesis by simp
qed


text \<open>
  C4, amended. A full refresh (\<^verbatim>\<open>onUpdate\<close>) of any list fetches the kept tokens: the tokens
  of the active chain with a non-zero address, the first one for each normalised address. It
  issues one \<^verbatim>\<open>getBalances\<close> call per batch of \<open>chunksFrom 0\<close> of the kept tokens, in order,
  each call settled and merged before the next one is issued. For K kept tokens the batches
  are ceil(K/500) in number, hold between 1 and 500 tokens each and together are the kept
  tokens; a list of tokens of the active chain with pairwise different, non-zero normalised
  addresses is kept whole. Whatever the calls return, errors included: the returned mapping
  is the last-write-wins union of the entries of all batches; for each address in it, the ref
  and the exposed state hold one and the same entry, equal to the entry last returned for the
  address in every field, the logo apart; a batch that returns an error leaves the error
  state set. The refresh trigger, for its part, batches the tokens of the active chain with
  no zero-address filter and issues all its calls before any of them settles.
\<close>

theorem full_refresh_batches:
  "h_events (snd (onUpdate toAddress gb u c ts st))
     = h_events st
       @ concat (map (\<lambda>ck. [Issued (chainID_or_1 c) u ck, Settled ck])
           (chunksFrom 0 (keptTokens toAddress c ts)))
   \<and> length (chunksFrom 0 (keptTokens toAddress c ts))
       = (length (keptTokens toAddress c ts) + 499) div 500
   \<and> concat (chunksFrom 0 (keptTokens toAddress c ts)) = keptTokens toAddress c ts
   \<and> (\<forall>ck\<in>set (chunksFrom 0 (keptTokens toAddress c ts)). 0 < length ck \<and> length ck \<le> 500)
   \<and> ((sameChainDistinct toAddress c ts
        \<and> (\<forall>t\<in>set ts. \<not> isZeroAddress toAddress (tk_address t)))
       \<longrightarrow> keptTokens toAddress c ts = ts)
   \<and> or_empty (fst (onUpdate toAddress gb u c ts st) c)
       = map_of (rev (concat (map (\<lambda>ck. fst (gb (chainID_or_1 c) u ck))
           (chunksFrom 0 (keptTokens toAddress c ts)))))
   \<and> (\<forall>a e. map_of (rev (concat (map (\<lambda>ck. fst (gb (chainID_or_1 c) u ck))
                  (chunksFrom 0 (keptTokens toAddress c ts))))) a = Some e
         \<longrightarrow> (\<exists>t. or_empty (d_balances (h_data (snd (onUpdate toAddress gb u c ts st))) c) a
                      = Some t
                  \<and> or_empty (h_balances (snd (onUpdate toAddress gb u c ts st)) c) a = Some t
                  \<and> t\<lparr>logoURI := logoURI e\<rparr> = e))
   \<and> ((\<exists>ck\<in>set (chunksFrom 0 (keptTokens toAddress c ts)).
          snd (gb (chainID_or_1 c) u ck) \<noteq> None)
       \<longrightarrow> h_error (snd (onUpdate toAddress gb u c ts st)) \<noteq> None)
   \<and> h_events (refreshTrigger toAddress gb u c ts st)
       = h_events st
         @ map (Issued c u) (chunksFrom 0 (triggerTokens toAddress c ts))
         @ map Settled (chunksFrom 0 (triggerTokens toAddress c ts))"
proof -
  let ?cks = "chunksFrom 0 (keptTokens toAddress c ts)"
  have sizes: "\<forall>ck\<in>set ?cks. 0 < length ck \<and> length ck \<le> 500"
    using chunksFrom_sizes by blast
  have count: "length ?cks = (length (keptTokens toAddress c ts) + 499) div 500"
    by (simp add: chunksFrom_length)
  have cover: "concat ?cks = keptTokens toAddress c ts"
    by (simp add: chunksFrom_concat)
  have whole: "(sameChainDistinct toAddress c ts
        \<and> (\<forall>t\<in>set ts. \<not> isZeroAddress toAddress (tk_address t)))
       \<longrightarrow> keptTokens toAddress c ts = ts"
    using keptTokens_id by blast
  have merged: "\<forall>a e. map_of (rev (concat (map (\<lambda>ck. fst (gb (chainID_or_1 c) u ck)) ?cks))) a
          = Some e
         \<longrightarrow> (\<exists>t. or_empty (d_balances (h_data (snd (onUpdate toAddress gb u c ts st))) c) a
                      = Some t
                  \<and> or_empty (h_balances (snd (onUpdate toAddress gb u c ts st)) c) a = Some t
                  \<and> t\<lparr>logoURI := logoURI e\<rparr> = e)"
    using onUpdate_merged by blast
  have err: "(\<exists>ck\<in>set ?cks. snd (gb (chainID_or_1 c) u ck) \<noteq> None)
       \<longrightarrow> h_error (snd (onUpdate toAddress gb u c ts st)) \<noteq> None"
    using onUpdate_error by blast
  from onUpdate_events [of toAddress gb u c ts st] count cover sizes whole
    onUpdate_returned [of toAddress gb u c ts st] merged err
    refreshTrigger_all_issued_first [of toAddress gb u c ts st]
  show ?thesis by (intro conjI)
qed

text \<open>
  The scenario of the specification, from a state that holds a stale balance: 1200 tokens in
  three batches, the second of which fails. The error is recorded; the first and the last
  token, from batches 1 and 3, are in the returned mapping; the balance 3 that the state held
  for the first token is 5 afterwards, in the ref and in the exposed state.
\<close>

theorem full_refresh_batches_witness:
  "length (ex_range 1 1201) = 1200
   \<and> sameChainDistinct ex_toAddress 1 (ex_range 1 1201)
   \<and> keptTokens ex_toAddress 1 (ex_range 1 1201) = ex_range 1 1201
   \<and> h_events (snd ex_refresh)
       = [Issued 1 (Some ''0xA'') (ex_range 1 501), Settled (ex_range 1 501),
          Issued 1 (Some ''0xA'') (ex_range 501 1001), Settled (ex_range 501 1001),
          Issued 1 (Some ''0xA'') (ex_range 1001 1201), Settled (ex_range 1001 1201)]
   \<and> snd (ex_getBalances_second_fails 1 (Some ''0xA'') (ex_range 501 1001)) \<noteq> None
   \<and> h_error (snd ex_refresh) \<noteq> None
   \<and> or_empty (fst ex_refresh 1) (ex_address 1) = Some (ex_token (ex_address 1) 5)
   \<and> or_empty (fst ex_refresh 1) (ex_address 1200) = Some (ex_token (ex_address 1200) 5)
   \<and> or_empty (fst ex_refresh 1) (ex_address 501) = None
   \<and> map_option balance (or_empty (h_balances ex_stale 1) (ex_address 1))
       = Some (balance (ex_token (ex_address 1) 3))
   \<and> map_option balance (or_empty (d_balances (h_data (snd ex_refresh)) 1) (ex_address 1))
       = Some (balance (ex_token (ex_address 1) 5))
   \<and> map_option balance (or_empty (h_balances (snd ex_refresh) 1) (ex_address 1))
       = Some (balance (ex_token (ex_address 1) 5))
   \<and> map_option balance (or_empty (h_balances (snd ex_refresh) 1) (ex_address 1200))
       = Some (balance (ex_token (ex_address 1200) 5))"
proof -
  let ?gb = ex_getBalances_second_fails
  let ?u = "Some ''0xA''"
  let ?answers = "map (\<lambda>t. (tk_address t, ex_token (tk_address t) 5)) (ex_range 1 501)
             @ map (\<lambda>t. (tk_address t, ex_token (tk_address t) 5)) (ex_range 1001 1201)"
  have pos: "0 < (1::nat)" by simp
  have nonzero: "\<forall>t\<in>set (ex_range 1 1201). \<not> isZeroAddress ex_toAddress (tk_address t)"
    using ex_range_nonzero [OF pos, of 1201] .
  have same: "sameChainDistinct ex_toAddress 1 (ex_range 1 1201)"
    using ex_range_chain [of 1 1201] ex_range_distinct [OF pos, of 1201]
    by (simp add: sameChainDistinct_def)
  have kept: "keptTokens ex_toAddress 1 (ex_range 1 1201) = ex_range 1 1201"
    using full_refresh_batches [of ex_toAddress ?gb ?u 1 "ex_range 1 1201" ex_stale] same nonzero
    by blast
  have all: "concat (map (\<lambda>ck. fst (?gb (chainID_or_1 1) ?u ck))
      [ex_range 1 501, ex_range 501 1001, ex_range 1001 1201]) = ?answers"
    by (simp add: ex_getBalances_second_fails_def ex_range_mem)
  note facts = full_refresh_batches [of ex_toAddress ?gb ?u 1 "ex_range 1 1201" ex_stale,
      unfolded kept ex_range_chunks all, folded ex_refresh_def]
  have len: "length (ex_range 1 1201) = 1200" by (simp add: ex_range_length)
  have events: "h_events (snd ex_refresh)
       = [Issued 1 (Some ''0xA'') (ex_range 1 501), Settled (ex_range 1 501),
          Issued 1 (Some ''0xA'') (ex_range 501 1001), Settled (ex_range 501 1001),
          Issued 1 (Some ''0xA'') (ex_range 1001 1201), Settled (ex_range 1001 1201)]"
    using facts by (simp add: ex_stale_def chainID_or_1_def)
  have fails: "snd (?gb 1 ?u (ex_range 501 1001)) \<noteq> None"
    by (simp add: ex_getBalances_second_fails_def ex_range_mem)
  have err: "h_error (snd ex_refresh) \<noteq> None"
    using facts fails by (simp add: chainID_or_1_def)
  have returned: "or_empty (fst ex_refresh 1) = map_of (rev ?answers)"
    using facts by blast
  have merged: "\<forall>a e. map_of (rev ?answers) a = Some e
         \<longrightarrow> (\<exists>t. or_empty (d_balances (h_data (snd ex_refresh)) 1) a = Some t
                  \<and> or_empty (h_balances (snd ex_refresh) 1) a = Some t
                  \<and> t\<lparr>logoURI := logoURI e\<rparr> = e)"
    using facts by blast
  have l1: "map_of (rev ?answers) (ex_address 1) = Some (ex_token (ex_address 1) 5)"
    unfolding ex_answers_lookup by simp
  have l1200: "map_of (rev ?answers) (ex_address 1200) = Some (ex_token (ex_address 1200) 5)"
    unfolding ex_answers_lookup by simp
  have l501: "map_of (rev ?answers) (ex_address 501) = None"
    unfolding ex_answers_lookup by simp
  from merged l1 obtain t1 where t1:
    "or_empty (d_balances (h_data (snd ex_refresh)) 1) (ex_address 1) = Some t1"
    "or_empty (h_balances (snd ex_refresh) 1) (ex_address 1) = Some t1"
    "t1\<lparr>logoURI := logoURI (ex_token (ex_address 1) 5)\<rparr> = ex_token (ex_address 1) 5"
    by blast
  from merged l1200 obtain t2 where t2:
    "or_empty (h_balances (snd ex_refresh) 1) (ex_address 1200) = Some t2"
    "t2\<lparr>logoURI := logoURI (ex_token (ex_address 1200) 5)\<rparr> = ex_token (ex_address 1200) 5"
    by blast
  have b1: "balance t1 = balance (ex_token (ex_address 1) 5)"
    using arg_cong [OF t1(3), of balance] by simp
  have b2: "balance t2 = balance (ex_token (ex_address 1200) 5)"
    using arg_cong [OF t2(2), of balance] by simp
  have stale: "map_option balance (or_empty (h_balances ex_stale 1) (ex_address 1))
       = Some (balance (ex_token (ex_address 1) 3))"
    by (simp add: ex_stale_def or_empty_def)
  from len same kept events fails err returned l1 l1200 l501 stale t1 t2 b1 b2 show ?thesis
    by simp
qed


section \<open>Precedence in the registry\<close>

lemma registry_lookup_update:
  "registry_lookup (AList.update k d r) k' a = (if k' = k then map_of d a else registry_lookup r k' a)"
  by (simp add: registry_lookup_def update_conv')

lemma registry_lookup_ensure:
  "registry_lookup (if map_of r k = None then AList.update k [] r else r) k' a = registry_lookup r k' a"
  by (simp add: registry_lookup_def update_conv')

lemma storeEntry_lookup:
  "registry_lookup (storeEntry toAddress z k c e r) k' a
     = (if k' = k \<and> a = toAddress (Some (e_address e)) \<and> registry_lookup r k a = None
        then Some (toToken z c e) else registry_lookup r k' a)"
  by (auto simp: storeEntry_def Let_def registry_lookup_def update_conv' split: option.splits)

lemma fold_storeEntry_lookup:
  "registry_lookup (fold (\<lambda>e. storeEntry toAddress z (kf e) (cf e) e) es r) k a
     = (case registry_lookup r k a of
          Some t \<Rightarrow> Some t
        | None \<Rightarrow> map_option (\<lambda>e. toToken z (cf e) e)
                    (find (\<lambda>e. kf e = k \<and> toAddress (Some (e_address e)) = a) es))"
proof (induction es arbitrary: r)
  case Nil
  then show ?case by (simp split: option.splits)
next
  case (Cons e es)
  show ?case
    by (simp add: Cons.IH storeEntry_lookup split: option.splits) auto
qed

lemma wellKeyed_Nil: "wellKeyed toAddress []"
  by (simp add: wellKeyed_def)

lemma wellKeyed_update:
  assumes "wellKeyed toAddress r" and "distinct (map fst d)"
    and "\<forall>a t. map_of d a = Some t \<longrightarrow> a = toAddress (Some (address t))"
  shows "wellKeyed toAddress (AList.update k d r)"
  using assms by (auto simp: wellKeyed_def distinct_update update_conv')

lemma wellKeyed_storeEntry:
  assumes "wellKeyed toAddress r"
  shows "wellKeyed toAddress (storeEntry toAddress z k c e r)"
proof -
  let ?r1 = "if map_of r k = None then AList.update k [] r else r"
  let ?d = "case map_of ?r1 k of None \<Rightarrow> [] | Some d \<Rightarrow> d"
  let ?a = "toAddress (Some (e_address e))"
  have r1: "wellKeyed toAddress ?r1"
    using assms by (simp add: wellKeyed_update)
  have d: "distinct (map fst ?d)"
      "\<forall>a t. map_of ?d a = Some t \<longrightarrow> a = toAddress (Some (address t))"
    using r1 unfolding wellKeyed_def by (auto split: option.splits)
  have addr: "address (toToken z c e) = e_address e"
    by (simp add: toToken_def)
  have "wellKeyed toAddress (AList.update k (AList.update ?a (toToken z c e) ?d) ?r1)"
  proof (rule wellKeyed_update [OF r1])
    show "distinct (map fst (AList.update ?a (toToken z c e) ?d))"
      using d(1) by (rule distinct_update)
    show "\<forall>a t. map_of (AList.update ?a (toToken z c e) ?d) a = Some t
        \<longrightarrow> a = toAddress (Some (address t))"
      using d(2) addr by (auto simp: update_conv')
  qed
  with r1 show ?thesis by (simp add: storeEntry_def Let_def)
qed

lemma wellKeyed_fold:
  "wellKeyed toAddress r \<Longrightarrow>
   wellKeyed toAddress (fold (\<lambda>e. storeEntry toAddress z (kf e) (cf e) e) es r)"
  by (induction es arbitrary: r) (simp_all add: wellKeyed_storeEntry)

lemma storeEntry_keys:
  "fst ` set (storeEntry toAddress z k c e r) = insert k (fst ` set r)"
proof -
  have "map_of r k \<noteq> None \<Longrightarrow> k \<in> fst ` set r"
    by (simp add: map_of_eq_None_iff)
  then show ?thesis
    by (auto simp: storeEntry_def Let_def dom_update)
qed

lemma fold_storeEntry_keys:
  "fst ` set (fold (\<lambda>e. storeEntry toAddress z (kf e) (cf e) e) es r) = fst ` set r \<union> kf ` set es"
  by (induction es arbitrary: r) (auto simp: storeEntry_keys)

lemma aggregateValues_other:
  "k' \<noteq> k \<Longrightarrow> registry_lookup (aggregateValues toAddress k ts agg) k' a = registry_lookup agg k' a"
  unfolding aggregateValues_def
  by (induction ts arbitrary: agg) (simp_all add: registry_lookup_update)

lemma aggregateValues_dict:
  assumes "distinct (map fst d)"
    and "\<forall>a t. map_of d a = Some t \<longrightarrow> a = toAddress (Some (address t))"
  shows "registry_lookup (aggregateValues toAddress k (map snd d) agg) k a
     = (case map_of d a of Some t \<Rightarrow> Some t | None \<Rightarrow> registry_lookup agg k a)"
  using assms
proof (induction d arbitrary: agg)
  case Nil
  then show ?case by (simp add: aggregateValues_def)
next
  case (Cons p d)
  obtain b t where p: "p = (b, t)" by (cases p)
  from Cons.prems p have key: "b = toAddress (Some (address t))" by simp
  from Cons.prems p have fresh: "map_of d b = None"
    by (simp add: map_of_eq_None_iff)
  have rest1: "distinct (map fst d)"
    using Cons.prems by simp
  have rest2: "\<forall>a t. map_of d a = Some t \<longrightarrow> a = toAddress (Some (address t))"
  proof (intro allI impI)
    fix a t'
    assume m: "map_of d a = Some t'"
    with fresh have "a \<noteq> b" by auto
    with m have "map_of (p # d) a = Some t'" by (simp add: p)
    with Cons.prems(2) show "a = toAddress (Some (address t'))" by blast
  qed
  note rest = rest1 rest2
  let ?agg = "AList.update k (AList.update b t (case map_of agg k of None \<Rightarrow> [] | Some d \<Rightarrow> d)) agg"
  have step: "aggregateValues toAddress k (map snd (p # d)) agg
      = aggregateValues toAddress k (map snd d) ?agg"
    by (simp add: aggregateValues_def p key)
  have here: "registry_lookup ?agg k a = (if a = b then Some t else registry_lookup agg k a)"
    by (simp add: registry_lookup_def update_conv' split: option.splits)
  show ?case
    unfolding step Cons.IH [OF rest] here using fresh
    by (simp add: p split: option.splits)
qed

lemma aggregateKeys_lookup:
  assumes "wellKeyed toAddress tier" and "None \<notin> set ks" and "set ks \<subseteq> fst ` set tier"
  shows "\<exists>agg'. aggregateKeys toAddress tier ks agg = Inr agg' \<and>
           (\<forall>k a. registry_lookup agg' k a
              = (if k \<in> set ks
                 then (case registry_lookup tier k a of
                         Some t \<Rightarrow> Some t
                       | None \<Rightarrow> registry_lookup agg k a)
                 else registry_lookup agg k a))"
  using assms(2,3)
proof (induction ks arbitrary: agg)
  case Nil
  then show ?case by simp
next
  case (Cons key ks)
  from Cons.prems obtain n where key: "key = Some n" by (cases key) auto
  from Cons.prems key have "Some n \<in> fst ` set tier" by simp
  then obtain d where d: "map_of tier (Some n) = Some d"
    by (metis map_of_eq_None_iff not_Some_eq)
  from assms(1) d have good: "distinct (map fst d)"
    "\<forall>a t. map_of d a = Some t \<longrightarrow> a = toAddress (Some (address t))"
    unfolding wellKeyed_def by blast+
  define agg1 where "agg1 = (if map_of agg (Some n) = None then AList.update (Some n) [] agg else agg)"
  define agg2 where "agg2 = aggregateValues toAddress (Some n) (map snd d) agg1"
  from Cons.prems have rest: "None \<notin> set ks" "set ks \<subseteq> fst ` set tier" by auto
  from Cons.IH [OF rest, of agg2] obtain agg' where
    run: "aggregateKeys toAddress tier ks agg2 = Inr agg'" and
    look: "\<And>k a. registry_lookup agg' k a
              = (if k \<in> set ks
                 then (case registry_lookup tier k a of
                         Some t \<Rightarrow> Some t
                       | None \<Rightarrow> registry_lookup agg2 k a)
                 else registry_lookup agg2 k a)"
    by blast
  have tier_here: "\<And>a. registry_lookup tier (Some n) a = map_of d a"
    by (simp add: registry_lookup_def d)
  have agg1: "registry_lookup agg1 k a = registry_lookup agg k a" for k a
    unfolding agg1_def by (rule registry_lookup_ensure)
  have agg2: "registry_lookup agg2 k a
      = (if k = Some n
         then (case map_of d a of Some t \<Rightarrow> Some t | None \<Rightarrow> registry_lookup agg k a)
         else registry_lookup agg k a)" for k a
  proof (cases "k = Some n")
    case True
    have "registry_lookup agg2 (Some n) a
        = (case map_of d a of Some t \<Rightarrow> Some t | None \<Rightarrow> registry_lookup agg1 (Some n) a)"
      unfolding agg2_def using good by (rule aggregateValues_dict)
    then show ?thesis using True by (simp add: agg1 split: option.splits)
  next
    case False
    then have "registry_lookup agg2 k a = registry_lookup agg1 k a"
      unfolding agg2_def by (rule aggregateValues_other)
    then show ?thesis using False by (simp add: agg1)
  qed
  have "aggregateKeys toAddress tier (key # ks) agg = Inr agg'"
    using run by (simp add: key d Let_def agg2_def agg1_def)
  moreover have "\<forall>k a. registry_lookup agg' k a
              = (if k \<in> set (key # ks)
                 then (case registry_lookup tier k a of
                         Some t \<Rightarrow> Some t
                       | None \<Rightarrow> registry_lookup agg k a)
                 else registry_lookup agg k a)"
    by (auto simp: look agg2 key tier_here split: option.splits)
  ultimately show ?case by blast
qed

lemma aggregateTier_lookup:
  assumes "wellKeyed toAddress tier" and "None \<notin> fst ` set tier"
  shows "\<exists>agg'. aggregateTier toAddress tier agg = Inr agg' \<and>
           (\<forall>k a. registry_lookup agg' k a
              = (case registry_lookup tier k a of
                   Some t \<Rightarrow> Some t
                 | None \<Rightarrow> registry_lookup agg k a))"
proof -
  have absent: "registry_lookup tier k a = None" if "k \<notin> set (map fst tier)" for k a
  proof -
    from that have "map_of tier k = None" by (simp add: map_of_eq_None_iff)
    then show ?thesis by (simp add: registry_lookup_def)
  qed
  from aggregateKeys_lookup [OF assms(1), of "map fst tier" agg] assms(2)
  obtain agg' where
    run: "aggregateKeys toAddress tier (map fst tier) agg = Inr agg'" and
    look: "\<And>k a. registry_lookup agg' k a
              = (if k \<in> set (map fst tier)
                 then (case registry_lookup tier k a of
                         Some t \<Rightarrow> Some t
                       | None \<Rightarrow> registry_lookup agg k a)
                 else registry_lookup agg k a)"
    by auto
  have "\<forall>k a. registry_lookup agg' k a
              = (case registry_lookup tier k a of
                   Some t \<Rightarrow> Some t
                 | None \<Rightarrow> registry_lookup agg k a)"
    using absent by (simp add: look)
  with run show ?thesis by (simp add: aggregateTier_def)
qed

lemma aggregatedTokenList_lookup:
  assumes "wellKeyed toAddress t1" "None \<notin> fst ` set t1"
    and "wellKeyed toAddress t2" "None \<notin> fst ` set t2"
    and "wellKeyed toAddress t3" "None \<notin> fst ` set t3"
  shows "\<exists>agg. aggregatedTokenList toAddress t1 t2 t3 = Inr agg \<and>
           (\<forall>k a. registry_lookup agg k a
              = (case registry_lookup t3 k a of
                   Some t \<Rightarrow> Some t
                 | None \<Rightarrow>
                     (case registry_lookup t2 k a of
                        Some t \<Rightarrow> Some t
                      | None \<Rightarrow> registry_lookup t1 k a)))"
proof -
  have none: "registry_lookup [] k a = None" for k a
    by (simp add: registry_lookup_def)
  from aggregateTier_lookup [OF assms(1,2), of "[]"] obtain a1 where
    a1: "aggregateTier toAddress t1 [] = Inr a1" and
    a1': "\<And>k a. registry_lookup a1 k a
         = (case registry_lookup t1 k a of Some t \<Rightarrow> Some t | None \<Rightarrow> registry_lookup [] k a)"
    by blast
  have a1l: "registry_lookup a1 k a = registry_lookup t1 k a" for k a
    by (simp add: a1' none split: option.splits)
  from aggregateTier_lookup [OF assms(3,4), of a1] obtain a2 where
    a2: "aggregateTier toAddress t2 a1 = Inr a2"
      "\<And>k a. registry_lookup a2 k a
         = (case registry_lookup t2 k a of Some t \<Rightarrow> Some t | None \<Rightarrow> registry_lookup a1 k a)"
    by blast
  from aggregateTier_lookup [OF assms(5,6), of a2] obtain a3 where
    a3: "aggregateTier toAddress t3 a2 = Inr a3"
      "\<And>k a. registry_lookup a3 k a
         = (case registry_lookup t3 k a of Some t \<Rightarrow> Some t | None \<Rightarrow> registry_lookup a2 k a)"
    by blast
  have "aggregatedTokenList toAddress t1 t2 t3 = Inr a3"
    by (simp add: aggregatedTokenList_def a1 a2(1) a3(1))
  moreover have "\<forall>k a. registry_lookup a3 k a
              = (case registry_lookup t3 k a of
                   Some t \<Rightarrow> Some t
                 | None \<Rightarrow>
                     (case registry_lookup t2 k a of
                        Some t \<Rightarrow> Some t
                      | None \<Rightarrow> registry_lookup t1 k a))"
    by (simp add: a3(2) a2(2) a1l split: option.splits)
  ultimately show ?thesis by blast
qed

lemma collectTokens_fulfilled:
  "Fulfilled None \<notin> set rs \<Longrightarrow> collectTokens rs acc = Inr (acc @ fulfilledEntries rs)"
  by (induction rs acc rule: collectTokens.induct) simp_all

lemma ingestExtraLists_fulfilled:
  "Fulfilled None \<notin> set rs \<Longrightarrow>
   ingestExtraLists toAddress z rs r = Inr (fold (extraStep toAddress z) (fulfilledEntries rs) r)"
  by (induction toAddress z rs r rule: ingestExtraLists.induct) simp_all

lemma ingestExtraTokens_stored:
  "ingestExtraTokens toAddress z extraTokens [] = fold (customStep toAddress z) (storedTokens extraTokens) []"
  by (cases extraTokens) (auto simp: ingestExtraTokens_def storedTokens_def)

lemma tier_facts:
  assumes "\<forall>e\<in>set es. kf e \<noteq> None"
  shows "wellKeyed toAddress (fold (\<lambda>e. storeEntry toAddress z (kf e) (cf e) e) es [])"
    and "None \<notin> fst ` set (fold (\<lambda>e. storeEntry toAddress z (kf e) (cf e) e) es [])"
proof -
  show "wellKeyed toAddress (fold (\<lambda>e. storeEntry toAddress z (kf e) (cf e) e) es [])"
    by (rule wellKeyed_fold) (rule wellKeyed_Nil)
  have "kf e \<noteq> None" if "e \<in> set es" for e using assms that by blast
  then have "None \<notin> kf ` set es" by (metis imageE)
  then show "None \<notin> fst ` set (fold (\<lambda>e. storeEntry toAddress z (kf e) (cf e) e) es [])"
    by (simp add: fold_storeEntry_keys)
qed

lemma buildRegistry_tiers:
  assumes "Fulfilled None \<notin> set baseResponses"
    and "Fulfilled None \<notin> set extraResponses"
    and "\<forall>e\<in>set (fulfilledEntries baseResponses). e_chainId e \<noteq> None"
    and "\<forall>e\<in>set (fulfilledEntries extraResponses). nullish (e_chainId e) (e_chainID e) \<noteq> None"
    and "\<forall>e\<in>set (storedTokens extraTokens). nullish (e_chainID e) (e_chainId e) \<noteq> None"
  shows "\<exists>agg. buildRegistry toAddress z baseResponses extraResponses extraTokens = Inr agg
           \<and> (\<forall>k a. registry_lookup agg k a
                = (case registry_lookup
                     (fold (\<lambda>e. storeEntry toAddress z (nullish (e_chainID e) (e_chainId e))
                        (nullish (e_chainID e) (e_chainId e)) e) (storedTokens extraTokens) []) k a of
                     Some t \<Rightarrow> Some t
                   | None \<Rightarrow>
                       (case registry_lookup
                          (fold (\<lambda>e. storeEntry toAddress z (nullish (e_chainId e) (e_chainID e))
                             (nullish (e_chainID e) (e_chainId e)) e)
                             (fulfilledEntries extraResponses) []) k a of
                          Some t \<Rightarrow> Some t
                        | None \<Rightarrow>
                            registry_lookup
                              (fold (\<lambda>e. storeEntry toAddress z (e_chainId e) (e_chainId e) e)
                                 (fulfilledEntries baseResponses) []) k a)))"
proof -
  let ?bs = "fulfilledEntries baseResponses"
  let ?xs = "fulfilledEntries extraResponses"
  let ?cs = "storedTokens extraTokens"
  let ?t1 = "fold (\<lambda>e. storeEntry toAddress z (e_chainId e) (e_chainId e) e) ?bs []"
  let ?t2 = "fold (\<lambda>e. storeEntry toAddress z (nullish (e_chainId e) (e_chainID e))
               (nullish (e_chainID e) (e_chainId e)) e) ?xs []"
  let ?t3 = "fold (\<lambda>e. storeEntry toAddress z (nullish (e_chainID e) (e_chainId e))
               (nullish (e_chainID e) (e_chainId e)) e) ?cs []"
  have steps: "baseStep toAddress z = (\<lambda>e. storeEntry toAddress z (e_chainId e) (e_chainId e) e)"
    "extraStep toAddress z = (\<lambda>e. storeEntry toAddress z (nullish (e_chainId e) (e_chainID e))
               (nullish (e_chainID e) (e_chainId e)) e)"
    "customStep toAddress z = (\<lambda>e. storeEntry toAddress z (nullish (e_chainID e) (e_chainId e))
               (nullish (e_chainID e) (e_chainId e)) e)"
    by (simp_all add: fun_eq_iff baseStep_def extraStep_def customStep_def)
  have base: "stateAfter (ingestBaseLists toAddress z baseResponses) = ?t1"
    using collectTokens_fulfilled [OF assms(1), of "[]"]
    by (simp add: ingestBaseLists_def stateAfter_def steps)
  have extra: "stateAfter (ingestExtraLists toAddress z extraResponses []) = ?t2"
    using ingestExtraLists_fulfilled [OF assms(2), of toAddress z "[]"]
    by (simp add: stateAfter_def steps)
  have custom: "ingestExtraTokens toAddress z extraTokens [] = ?t3"
    by (simp add: ingestExtraTokens_stored steps)
  have w1: "wellKeyed toAddress ?t1" "None \<notin> fst ` set ?t1"
    using assms(3) by (rule tier_facts)+
  have w2: "wellKeyed toAddress ?t2" "None \<notin> fst ` set ?t2"
    using assms(4) by (rule tier_facts)+
  have w3: "wellKeyed toAddress ?t3" "None \<notin> fst ` set ?t3"
    using assms(5) by (rule tier_facts)+
  from aggregatedTokenList_lookup [OF w1 w2 w3]
  show ?thesis
    by (simp add: buildRegistry_def base extra custom)
qed




























text \<open>
  Rejected fetches do not stand in the way: under the same conditions every entry of every
  fulfilled base list has its identity key in the registry.
\<close>

lemma rejected_fetches_skipped:
  assumes "Fulfilled None \<notin> set baseResponses"
    and "Fulfilled None \<notin> set extraResponses"
    and "\<forall>e\<in>set (fulfilledEntries baseResponses). e_chainId e \<noteq> None"
    and "\<forall>e\<in>set (fulfilledEntries extraResponses). nullish (e_chainId e) (e_chainID e) \<noteq> None"
    and "\<forall>e\<in>set (storedTokens extraTokens). nullish (e_chainID e) (e_chainId e) \<noteq> None"
    and "e \<in> set (fulfilledEntries baseResponses)"
  shows "\<exists>agg. buildRegistry toAddress z baseResponses extraResponses extraTokens = Inr agg
           \<and> registry_lookup agg (e_chainId e) (toAddress (Some (e_address e))) \<noteq> None"
proof -
  let ?k = "e_chainId e" and ?a = "toAddress (Some (e_address e))"
  have none: "registry_lookup [] ?k ?a = None"
    by (simp add: registry_lookup_def)
  from assms(6) have found: "find (\<lambda>e'. e_chainId e' = ?k \<and> toAddress (Some (e_address e')) = ?a)
      (fulfilledEntries baseResponses) \<noteq> None"
    by (auto simp: find_None_iff)
  from buildRegistry_tiers [OF assms(1-5), of toAddress z] obtain agg where
    run: "buildRegistry toAddress z baseResponses extraResponses extraTokens = Inr agg" and
    look: "\<And>k a. registry_lookup agg k a
                = (case registry_lookup
                     (fold (\<lambda>e. storeEntry toAddress z (nullish (e_chainID e) (e_chainId e))
                        (nullish (e_chainID e) (e_chainId e)) e) (storedTokens extraTokens) []) k a of
                     Some t \<Rightarrow> Some t
                   | None \<Rightarrow>
                       (case registry_lookup
                          (fold (\<lambda>e. storeEntry toAddress z (nullish (e_chainId e) (e_chainID e))
                             (nullish (e_chainID e) (e_chainId e)) e)
                             (fulfilledEntries extraResponses) []) k a of
                          Some t \<Rightarrow> Some t
                        | None \<Rightarrow>
                            registry_lookup
                              (fold (\<lambda>e. storeEntry toAddress z (e_chainId e) (e_chainId e) e)
                                 (fulfilledEntries baseResponses) []) k a))"
    by blast
  have "registry_lookup agg ?k ?a \<noteq> None"
    unfolding look fold_storeEntry_lookup none using found
    by (auto split: option.splits)
  with run show ?thesis by blast
qed


end
